theory Spec2Isabelle
  imports Main
begin

section \<open>Characters and JavaScript string primitives\<close>

text \<open>
  The transpiler of \<^verbatim>\<open>src/hss.js\<close> works on a JavaScript string, one UTF-16 code unit at a
  time. The model takes the code units below 256, one \<^typ>\<open>char\<close> each. A code unit above that
  is, for this program, either one more whitespace character of the class \<^verbatim>\<open>\s\<close> or an
  ordinary character: it never is a delimiter.
\<close>

abbreviation SQ :: char where "SQ \<equiv> CHR 0x27"
abbreviation DQ :: char where "DQ \<equiv> CHR 0x22"
abbreviation BQ :: char where "BQ \<equiv> CHR 0x60"
abbreviation BSL :: char where "BSL \<equiv> CHR 0x5C"
abbreviation NL :: char where "NL \<equiv> CHR 0x0A"

text \<open>\<^verbatim>\<open>quoteRegex = /['"`]/\<close>, tested on one character.\<close>

definition quoteRegex :: "char \<Rightarrow> bool" where
  "quoteRegex c = (c = SQ \<or> c = DQ \<or> c = BQ)"

text \<open>
  \<^verbatim>\<open>whitespaceRegex = /\s+/\<close>, tested on one character: tab, line feed, vertical tab, form
  feed, carriage return, space and the no-break space are the members of \<^verbatim>\<open>\s\<close> below 256.
  \<^verbatim>\<open>String.prototype.trim\<close> strips the same characters.
\<close>

definition whitespaceRegex :: "char \<Rightarrow> bool" where
  "whitespaceRegex c =
     (c = CHR 0x09 \<or> c = NL \<or> c = CHR 0x0B \<or> c = CHR 0x0C \<or> c = CHR 0x0D
      \<or> c = CHR '' '' \<or> c = CHR 0xA0)"

definition trim :: "string \<Rightarrow> string" where
  "trim s = rev (dropWhile whitespaceRegex (rev (dropWhile whitespaceRegex s)))"

text \<open>
  \<^verbatim>\<open>next()\<close> returns \<^verbatim>\<open>undefined\<close> at the end of the input. Appending
  \<^verbatim>\<open>undefined\<close> to a string appends the text \<^verbatim>\<open>undefined\<close>, and
  \<^verbatim>\<open>undefined + undefined\<close> is \<^verbatim>\<open>NaN\<close>.
\<close>

definition js_string :: "char option \<Rightarrow> string" where
  "js_string c = (case c of None \<Rightarrow> ''undefined'' | Some x \<Rightarrow> [x])"

fun js_plus :: "char option \<Rightarrow> char option \<Rightarrow> string" where
  "js_plus None None = ''NaN''"
| "js_plus a b = js_string a @ js_string b"

text \<open>The decimal text of a line number, as string concatenation renders it.\<close>

definition digit_char :: "nat \<Rightarrow> char" where
  "digit_char d = ''0123456789'' ! d"

fun show_nat :: "nat \<Rightarrow> string" where
  "show_nat n =
     (if n < 10 then [digit_char n] else show_nat (n div 10) @ [digit_char (n mod 10)])"

declare show_nat.simps [simp del]

section \<open>Data model\<close>

datatype token = COMMENT | STRING | WHITESPACE

datatype kind = RootContext | HssContext | JsContext

text \<open>
  One \<^verbatim>\<open>Context\<close> object. \<open>ignoreCount\<close> is a field of \<^verbatim>\<open>JsContext\<close> only; the
  other kinds never read it. The \<^verbatim>\<open>parentContext\<close> chain is the list \<open>parents\<close> of the reader.
\<close>

record Context =
  kind :: kind
  content :: string
  startingLine :: nat
  ignoreCount :: nat

text \<open>
  The \<^verbatim>\<open>Transpiler\<close> object (a \<^verbatim>\<open>Reader\<close>): \<open>ctx\<close> is \<^verbatim>\<open>this.context\<close>, and
  \<open>parents\<close> is its \<^verbatim>\<open>parentContext\<close>, that one's parent, and so on up to the root.
\<close>

record reader =
  filename :: string
  input :: string
  line :: nat
  ctx :: Context
  parents :: "Context list"

datatype error = SyntaxError string | TypeError

definition new_Context :: "kind \<Rightarrow> nat \<Rightarrow> Context" where
  "new_Context k ln = \<lparr>kind = k, content = [], startingLine = ln, ignoreCount = 0\<rparr>"

definition Transpiler :: "string \<Rightarrow> string \<Rightarrow> reader" where
  "Transpiler fname inp =
     \<lparr>filename = fname, input = inp, line = 1, ctx = new_Context RootContext 1, parents = []\<rparr>"

section \<open>Reader\<close>

definition Reader_error :: "reader \<Rightarrow> string \<Rightarrow> error" where
  "Reader_error r msg =
     SyntaxError (''Hss Error in '' @ filename r @ '' on line '' @ show_nat (line r) @ [NL] @ msg)"

definition Reader_next :: "reader \<Rightarrow> char option \<times> reader" where
  "Reader_next r =
     (case input r of
        [] \<Rightarrow> (None, r)
      | c # cs \<Rightarrow> (Some c, r\<lparr>input := cs, line := (if c = NL then line r + 1 else line r)\<rparr>))"

definition Reader_peek :: "reader \<Rightarrow> char option" where
  "Reader_peek r = (case input r of [] \<Rightarrow> None | c # _ \<Rightarrow> Some c)"

definition Reader_peek2 :: "reader \<Rightarrow> string" where
  "Reader_peek2 r = take 2 (input r)"

section \<open>Contexts\<close>

text \<open>\<^verbatim>\<open>beforeAdd\<close> exists in \<^verbatim>\<open>JsContext\<close> only.\<close>

definition beforeAdd :: "Context \<Rightarrow> string \<Rightarrow> Context" where
  "beforeAdd c str =
     (if kind c = JsContext \<and> str = ''['' then c\<lparr>ignoreCount := ignoreCount c + 1\<rparr> else c)"

text \<open>\<^verbatim>\<open>add(str)\<close> with no type, or with a type the context has no handler for.\<close>

definition add_content :: "Context \<Rightarrow> string \<Rightarrow> Context" where
  "add_content c str = (let c' = beforeAdd c str in c'\<lparr>content := content c' @ str\<rparr>)"

definition ChildContext_WHITESPACE :: "Context \<Rightarrow> Context" where
  "ChildContext_WHITESPACE c =
     (if content c = [] \<or> last (content c) \<noteq> CHR '' '' then add_content c '' '' else c)"

text \<open>\<^verbatim>\<open>str.replace(/'/g, "\\\\\\'")\<close>: three backslashes and the quote for every quote.\<close>

fun replace_quotes :: "string \<Rightarrow> string" where
  "replace_quotes [] = []"
| "replace_quotes (c # cs) =
     (if c = SQ then [BSL, BSL, BSL, SQ] @ replace_quotes cs else c # replace_quotes cs)"

definition HssContext_STRING :: "Context \<Rightarrow> string \<Rightarrow> Context" where
  "HssContext_STRING c str =
     (case str of
        [] \<Rightarrow> add_content c str
      | q # _ \<Rightarrow>
          if q \<noteq> SQ then add_content c str
          else add_content c ([BSL, SQ] @ replace_quotes (butlast (tl str)) @ [BSL, SQ]))"

text \<open>
  \<^verbatim>\<open>Context.add(str, type)\<close>: a handler named after the type wins, and then neither
  \<^verbatim>\<open>beforeAdd\<close> nor the append runs. The root has no handler; both child kinds have
  \<^verbatim>\<open>COMMENT\<close> (empty) and \<^verbatim>\<open>WHITESPACE\<close>; \<^verbatim>\<open>HssContext\<close> has \<^verbatim>\<open>STRING\<close>.
\<close>

definition Context_add :: "Context \<Rightarrow> string \<Rightarrow> token option \<Rightarrow> Context" where
  "Context_add c str ty =
     (case ty of
        None \<Rightarrow> add_content c str
      | Some COMMENT \<Rightarrow> if kind c = RootContext then add_content c str else c
      | Some WHITESPACE \<Rightarrow>
          if kind c = RootContext then add_content c str else ChildContext_WHITESPACE c
      | Some STRING \<Rightarrow>
          if kind c = HssContext then HssContext_STRING c str else add_content c str)"

definition toString :: "Context \<Rightarrow> string" where
  "toString c =
     (case kind c of
        RootContext \<Rightarrow> content c
      | HssContext \<Rightarrow> [SQ] @ trim (content c) @ [SQ]
      | JsContext \<Rightarrow> (SQ # '' + sheath.css.jsExpr('') @ content c @ '') + '' @ [SQ])"

definition endDelimiter :: "kind \<Rightarrow> string" where
  "endDelimiter k = (case k of RootContext \<Rightarrow> [] | HssContext \<Rightarrow> ''>>'' | JsContext \<Rightarrow> '']'')"

definition name_of :: "kind \<Rightarrow> string" where
  "name_of k =
     (case k of RootContext \<Rightarrow> [] | HssContext \<Rightarrow> ''Hss expression''
      | JsContext \<Rightarrow> ''JavaScript expression'')"

definition saveChildContent :: "Context \<Rightarrow> string \<Rightarrow> Context" where
  "saveChildContent c str =
     (if kind c = RootContext then Context_add c (''sheath.css.evaluate('' @ str @ '')'') None
      else Context_add c str None)"

text \<open>The method of the reader that hands a token to the current context.\<close>

definition add :: "reader \<Rightarrow> string \<Rightarrow> token option \<Rightarrow> reader" where
  "add r str ty = r\<lparr>ctx := Context_add (ctx r) str ty\<rparr>"

text \<open>
  \<^verbatim>\<open>childContextStart\<close>: \<^verbatim>\<open>HssContext\<close> opens a child at \<^verbatim>\<open>[\<close>, the other two at
  \<^verbatim>\<open><<\<close>. The delimiter is consumed.
\<close>

definition childContextStart :: "reader \<Rightarrow> bool \<times> reader" where
  "childContextStart r =
     (if kind (ctx r) = HssContext then
        (if Reader_peek r \<noteq> Some (CHR ''['') then (False, r) else (True, snd (Reader_next r)))
      else
        (if Reader_peek2 r \<noteq> ''<<'' then (False, r)
         else (True, snd (Reader_next (snd (Reader_next r))))))"

text \<open>
  \<^verbatim>\<open>contextEnd\<close>. In \<^verbatim>\<open>JsContext\<close> a \<^verbatim>\<open>]\<close> met while \<open>ignoreCount\<close> is not zero is
  added to the content, the count goes down, and the answer is \<^verbatim>\<open>false\<close>.
\<close>

definition contextEnd :: "reader \<Rightarrow> bool \<times> reader" where
  "contextEnd r =
     (case kind (ctx r) of
        RootContext \<Rightarrow> (False, r)
      | HssContext \<Rightarrow>
          if Reader_peek2 r \<noteq> endDelimiter HssContext then (False, r)
          else (True, snd (Reader_next (snd (Reader_next r))))
      | JsContext \<Rightarrow>
          if Reader_peek r \<noteq> Some (CHR '']'') then (False, r)
          else if ignoreCount (ctx r) \<noteq> 0 then
            (let (c, r1) = Reader_next r;
                 r2 = add r1 (js_string c) None
             in (False, r2\<lparr>ctx := (ctx r2)\<lparr>ignoreCount := ignoreCount (ctx r2) - 1\<rparr>\<rparr>))
          else (True, snd (Reader_next r)))"

text \<open>\<^verbatim>\<open>newChildContext\<close>: which kind of child each kind of context opens.\<close>

definition child_kind :: "kind \<Rightarrow> kind" where
  "child_kind k =
     (case k of RootContext \<Rightarrow> HssContext | HssContext \<Rightarrow> JsContext | JsContext \<Rightarrow> HssContext)"

definition newContext :: "reader \<Rightarrow> reader" where
  "newContext r =
     r\<lparr>ctx := new_Context (child_kind (kind (ctx r))) (line r), parents := ctx r # parents r\<rparr>"

text \<open>
  \<^verbatim>\<open>endContext\<close>: the parent takes the text of the closing child and becomes current.
  A context with no parent has \<^verbatim>\<open>parentContext\<close> undefined, and the call on it is a
  \<^verbatim>\<open>TypeError\<close>.
\<close>

definition endContext :: "reader \<Rightarrow> error + reader" where
  "endContext r =
     (case parents r of
        [] \<Rightarrow> Inl TypeError
      | p # ps \<Rightarrow> Inr (r\<lparr>ctx := saveChildContent p (toString (ctx r)), parents := ps\<rparr>))"

section \<open>Scanner\<close>

function lineComment_loop :: "reader \<Rightarrow> string \<Rightarrow> string \<times> reader" where
  "lineComment_loop r cont =
     (case Reader_peek r of
        None \<Rightarrow> (cont, r)
      | Some nxt \<Rightarrow>
          if nxt \<noteq> NL then lineComment_loop (snd (Reader_next r)) (cont @ [nxt])
          else (cont, r))"
  by pat_completeness auto
termination
  by (relation "measure (\<lambda>(r, cont). length (input r))")
     (auto simp: Reader_peek_def Reader_next_def split: list.splits)

declare lineComment_loop.simps [simp del]

definition lineComment :: "reader \<Rightarrow> reader" where
  "lineComment r = (let (cont, r1) = lineComment_loop r [] in add r1 cont (Some COMMENT))"

function blockComment_loop :: "reader \<Rightarrow> string \<Rightarrow> string \<times> reader" where
  "blockComment_loop r cont =
     (if Reader_peek2 r \<noteq> [] \<and> Reader_peek2 r \<noteq> ''*/'' then
        (let (c, r1) = Reader_next r in blockComment_loop r1 (cont @ js_string c))
      else (cont, r))"
  by pat_completeness auto
termination
  by (relation "measure (\<lambda>(r, cont). length (input r))")
     (auto simp: Reader_peek2_def Reader_next_def split: list.splits)

declare blockComment_loop.simps [simp del]

definition blockComment :: "reader \<Rightarrow> reader" where
  "blockComment r =
     (let (a, r1) = Reader_next r;
          (b, r2) = Reader_next r1;
          (cont, r3) = blockComment_loop r2 (js_plus a b);
          (c, r4) = Reader_next r3;
          (d, r5) = Reader_next r4
      in add r5 (cont @ js_plus c d) (Some COMMENT))"

definition Reader_COMMENT :: "reader \<Rightarrow> reader" where
  "Reader_COMMENT r =
     (if Reader_peek2 r = ''//'' then lineComment r
      else if Reader_peek2 r = ''/*'' then blockComment r
      else (let (c, r1) = Reader_next r in add r1 (js_string c) None))"

text \<open>
  The loop of \<^verbatim>\<open>Reader.STRING\<close>. The escape branch drops the backslash and appends the
  character after it; the newline branch raises unless the delimiter is a backtick.
\<close>

function STRING_loop :: "reader \<Rightarrow> char \<Rightarrow> string \<Rightarrow> error + (string \<times> reader)" where
  "STRING_loop r type str =
     (case Reader_peek r of
        None \<Rightarrow> Inr (str, r)
      | Some nxt \<Rightarrow>
          if nxt = type then Inr (str, r)
          else if nxt = BSL then
            (let (esc, r1) = Reader_next r;
                 (c, r2) = Reader_next r1
             in STRING_loop r2 type (str @ js_string c))
          else if nxt = NL \<and> type \<noteq> BQ then
            Inl (Reader_error r ''Unexpected multi-line string'')
          else
            (let (c, r1) = Reader_next r in STRING_loop r1 type (str @ js_string c)))"
  by pat_completeness auto
termination
  by (relation "measure (\<lambda>(r, type, str). length (input r))")
     (auto simp: Reader_peek_def Reader_next_def split: list.splits)

declare STRING_loop.simps [simp del]

definition Reader_STRING :: "reader \<Rightarrow> error + reader" where
  "Reader_STRING r =
     (case Reader_next r of
        (None, r1) \<Rightarrow> Inr (add r1 ''NaN'' (Some STRING))
      | (Some type, r1) \<Rightarrow>
          (case STRING_loop r1 type [type] of
             Inl e \<Rightarrow> Inl e
           | Inr (str, r2) \<Rightarrow>
               if Reader_peek r2 \<noteq> Some type then
                 Inl (Reader_error r2 ''Unexpected end of file'')
               else
                 (let (c, r3) = Reader_next r2
                  in Inr (add r3 (str @ js_string c) (Some STRING)))))"

definition Reader_WHITESPACE :: "reader \<Rightarrow> reader" where
  "Reader_WHITESPACE r = (let (c, r1) = Reader_next r in add r1 (js_string c) (Some WHITESPACE))"

section \<open>Driver\<close>

text \<open>The body of the loop of \<^verbatim>\<open>transpile\<close>, for the next character \<open>nxt\<close>.\<close>

definition transpile_step :: "reader \<Rightarrow> char \<Rightarrow> error + reader" where
  "transpile_step r nxt =
     (if quoteRegex nxt then Reader_STRING r
      else if nxt = CHR ''/'' then Inr (Reader_COMMENT r)
      else if whitespaceRegex nxt then Inr (Reader_WHITESPACE r)
      else
        (let (started, r1) = childContextStart r in
         if started then Inr (newContext r1)
         else
           (let (ended, r2) = contextEnd r1 in
            if ended then endContext r2
            else (let (c, r3) = Reader_next r2 in Inr (add r3 (js_string c) None)))))"

text \<open>The loop of \<^verbatim>\<open>transpile\<close>: it runs until \<^verbatim>\<open>peek()\<close> is undefined.\<close>

function transpile_loop :: "reader \<Rightarrow> error + reader" where
  "transpile_loop r =
     (case Reader_peek r of
        None \<Rightarrow> Inr r
      | Some nxt \<Rightarrow>
          (case transpile_step r nxt of
             Inl e \<Rightarrow> Inl e
           | Inr r' \<Rightarrow> transpile_loop r'))"
  by pat_completeness auto

text \<open>The message of the error that \<^verbatim>\<open>transpile\<close> raises for a region left open.\<close>

definition unterminated_message :: "kind \<Rightarrow> nat \<Rightarrow> string" where
  "unterminated_message k ln =
     ''Unexpected end of file. It looks like you forgot the closing '' @ [DQ]
     @ endDelimiter k @ [DQ] @ '' of the '' @ name_of k @ '' beginning on line ''
     @ show_nat ln @ ''.''"

definition transpile :: "reader \<Rightarrow> error + string" where
  "transpile r =
     (case transpile_loop r of
        Inl e \<Rightarrow> Inl e
      | Inr r' \<Rightarrow>
          if kind (ctx r') \<noteq> RootContext then
            Inl (Reader_error r'
                   (unterminated_message (kind (ctx r')) (startingLine (ctx r'))))
          else Inr (toString (ctx r')))"

text \<open>
  The first \<open>n\<close> passes through the loop of \<^verbatim>\<open>transpile\<close>: the states the transpiler
  goes through on its way.
\<close>

fun loop_steps :: "nat \<Rightarrow> reader \<Rightarrow> error + reader" where
  "loop_steps 0 r = Inr r"
| "loop_steps (Suc n) r =
     (case Reader_peek r of
        None \<Rightarrow> Inr r
      | Some nxt \<Rightarrow>
          (case transpile_step r nxt of
             Inl e \<Rightarrow> Inl e
           | Inr r' \<Rightarrow> loop_steps n r'))"

section \<open>Shapes of input text\<close>

text \<open>
  A character that the loop of \<^verbatim>\<open>Reader.STRING\<close> copies as it is, for the delimiter
  \<open>type\<close>: not the delimiter, not a backslash, not a newline.
\<close>

definition ordinary :: "char \<Rightarrow> char \<Rightarrow> bool" where
  "ordinary type c = (c \<noteq> type \<and> c \<noteq> BSL \<and> c \<noteq> NL)"

text \<open>
  A character that every context appends as it is, wherever it stands: no quote, no slash,
  no whitespace, no angle bracket and no square bracket.
\<close>

definition plain :: "char \<Rightarrow> bool" where
  "plain c =
     (\<not> quoteRegex c \<and> c \<noteq> CHR ''/'' \<and> \<not> whitespaceRegex c
      \<and> c \<noteq> CHR ''<'' \<and> c \<noteq> CHR ''>'' \<and> c \<noteq> CHR ''['' \<and> c \<noteq> CHR '']'')"

text \<open>The number of places of a text at which the text \<open>pat\<close> starts.\<close>

fun occurrences :: "string \<Rightarrow> string \<Rightarrow> nat" where
  "occurrences pat [] = 0"
| "occurrences pat (c # cs) =
     (if take (length pat) (c # cs) = pat then 1 else 0) + occurrences pat cs"

text \<open>
  The text between the delimiters of a string, as the loop of \<^verbatim>\<open>Reader.STRING\<close> reads it
  for the delimiter \<open>type\<close> without stopping: characters that are not the delimiter, not a
  backslash and (unless the delimiter is a backtick) not a newline, and escapes, each a
  backslash with the one character after it. \<open>unescape\<close> is that text with the backslash of
  every escape taken out.
\<close>

fun string_body :: "char \<Rightarrow> string \<Rightarrow> bool" where
  "string_body type [] = True"
| "string_body type [c] = (c \<noteq> type \<and> c \<noteq> BSL \<and> (type = BQ \<or> c \<noteq> NL))"
| "string_body type (c # d # cs) =
     (if c = BSL then string_body type cs
      else c \<noteq> type \<and> (type = BQ \<or> c \<noteq> NL) \<and> string_body type (d # cs))"

fun unescape :: "string \<Rightarrow> string" where
  "unescape [] = []"
| "unescape [c] = [c]"
| "unescape (c # d # cs) = (if c = BSL then d # unescape cs else c # unescape (d # cs))"

text \<open>
  A text that the scanner reads to its end without raising and without running into the end
  of the input inside a token: every string that starts is closed by its delimiter (before
  the end of the line, unless it is a backtick string) and has no backslash in it, and
  every block comment that starts is closed. \<open>string_end\<close> and \<open>block_end\<close> give what
  follows the closing delimiter.
\<close>

fun string_end :: "char \<Rightarrow> string \<Rightarrow> string option" where
  "string_end q [] = None"
| "string_end q (c # cs) =
     (if c = q then Some cs
      else if c = BSL then None
      else if c = NL \<and> q \<noteq> BQ then None
      else string_end q cs)"

fun block_end :: "string \<Rightarrow> string option" where
  "block_end [] = None"
| "block_end (c # cs) = (if take 2 (c # cs) = ''*/'' then Some (tl cs) else block_end cs)"

function lexically_closed :: "string \<Rightarrow> bool" where
  "lexically_closed [] = True"
| "lexically_closed (c # cs) =
     (if quoteRegex c then
        (case string_end c cs of None \<Rightarrow> False | Some rest \<Rightarrow> lexically_closed rest)
      else if take 2 (c # cs) = ''//'' then lexically_closed (dropWhile (\<lambda>x. x \<noteq> NL) cs)
      else if take 2 (c # cs) = ''/*'' then
        (case block_end (tl cs) of None \<Rightarrow> False | Some rest \<Rightarrow> lexically_closed rest)
      else lexically_closed cs)"
  by pat_completeness auto

section \<open>Termination of the driver\<close>

text \<open>
  Every pass through the loop of \<^verbatim>\<open>transpile\<close> consumes at least one character: the
  scanner loops never give input back, and each branch of the body takes one character or more.
  So the loop ends on every input.
\<close>

lemma Reader_next_input: "input (snd (Reader_next r)) = tl (input r)"
  by (simp add: Reader_next_def split: list.splits)

lemma Reader_next_length: "length (input (snd (Reader_next r))) \<le> length (input r)"
  by (simp add: Reader_next_input)

lemma add_input: "input (add r str ty) = input r"
  by (simp add: add_def)

lemma lineComment_loop_length:
  "length (input (snd (lineComment_loop r cont))) \<le> length (input r)"
proof (induction r cont rule: lineComment_loop.induct)
  case (1 r cont)
  show ?case
  proof (cases "Reader_peek r")
    case None
    then show ?thesis by (subst lineComment_loop.simps) simp
  next
    case (Some nxt)
    show ?thesis
    proof (cases "nxt = NL")
      case True
      with Some show ?thesis by (subst lineComment_loop.simps) simp
    next
      case False
      from "1.IH" [OF Some False] Some False show ?thesis
        using Reader_next_length [of r] by (subst lineComment_loop.simps) simp
    qed
  qed
qed

lemma blockComment_loop_length:
  "length (input (snd (blockComment_loop r cont))) \<le> length (input r)"
proof (induction r cont rule: blockComment_loop.induct)
  case (1 r cont)
  show ?case
  proof (cases "Reader_peek2 r \<noteq> [] \<and> Reader_peek2 r \<noteq> ''*/''")
    case True
    obtain c r1 where n: "Reader_next r = (c, r1)" by (cases "Reader_next r")
    from "1.IH" [OF True n [symmetric] refl] have "length (input (snd (blockComment_loop r1 (cont @ js_string c)))) \<le> length (input r1)" .
    moreover have "length (input r1) \<le> length (input r)" using Reader_next_length [of r] n by simp
    ultimately show ?thesis using True n by (subst blockComment_loop.simps) simp
  next
    case False
    then show ?thesis by (subst blockComment_loop.simps) auto
  qed
qed

lemma STRING_loop_length:
  "STRING_loop r type str = Inr (s, r') \<Longrightarrow> length (input r') \<le> length (input r)"
proof (induction r type str rule: STRING_loop.induct)
  case (1 r type str)
  show ?case
  proof (cases "Reader_peek r")
    case None
    with "1.prems" show ?thesis by (subst (asm) STRING_loop.simps) simp
  next
    case (Some nxt)
    obtain esc r1 where n1: "Reader_next r = (esc, r1)" by (cases "Reader_next r")
    obtain c r2 where n2: "Reader_next r1 = (c, r2)" by (cases "Reader_next r1")
    have l1: "length (input r1) \<le> length (input r)" using Reader_next_length [of r] n1 by simp
    have l2: "length (input r2) \<le> length (input r1)" using Reader_next_length [of r1] n2 by simp
    consider (a) "nxt = type" | (b) "nxt \<noteq> type" "nxt = BSL"
      | (c) "nxt \<noteq> type" "nxt \<noteq> BSL" "nxt = NL \<and> type \<noteq> BQ"
      | (d) "nxt \<noteq> type" "nxt \<noteq> BSL" "\<not> (nxt = NL \<and> type \<noteq> BQ)" by blast
    then show ?thesis
    proof cases
      case a
      with "1.prems" Some show ?thesis by (subst (asm) STRING_loop.simps) simp
    next
      case b
      from "1.prems" Some b n1 n2 have "STRING_loop r2 type (str @ js_string c) = Inr (s, r')"
        by (subst (asm) STRING_loop.simps) simp
      from "1.IH"(1) [OF Some b(1) b(2) n1 [symmetric] refl n2 [symmetric] refl this]
      show ?thesis using l1 l2 by simp
    next
      case c
      with "1.prems" Some show ?thesis by (subst (asm) STRING_loop.simps) simp
    next
      case d
      from "1.prems" Some d n1 have "STRING_loop r1 type (str @ js_string esc) = Inr (s, r')"
        by (subst (asm) STRING_loop.simps) auto
      from "1.IH"(2) [OF Some d(1) d(2) d(3) n1 [symmetric] refl this]
      show ?thesis using l1 by simp
    qed
  qed
qed

lemma Reader_next_Cons:
  "input r = c # cs \<Longrightarrow>
   Reader_next r = (Some c, r\<lparr>input := cs, line := (if c = NL then line r + 1 else line r)\<rparr>)"
  by (simp add: Reader_next_def)

lemma Reader_COMMENT_length:
  assumes "input r = c # cs" and "c \<noteq> NL"
  shows "length (input (Reader_COMMENT r)) < length (input r)"
proof -
  let ?r1 = "r\<lparr>input := cs, line := line r\<rparr>"
  have n: "Reader_next r = (Some c, ?r1)" using assms by (simp add: Reader_next_Cons)
  have line: "length (input (lineComment r)) < length (input r)"
  proof -
    have "lineComment_loop r [] = lineComment_loop ?r1 [c]"
      using assms n by (subst lineComment_loop.simps) (simp add: Reader_peek_def)
    then have "length (input (snd (lineComment_loop r []))) \<le> length cs"
      using lineComment_loop_length [of ?r1 "[c]"] by simp
    then show ?thesis using assms by (auto simp: lineComment_def add_input split: prod.splits)
  qed
  have block: "length (input (blockComment r)) < length (input r)"
  proof -
    obtain b r2 where n2: "Reader_next ?r1 = (b, r2)" by (cases "Reader_next ?r1")
    obtain cont r3 where l: "blockComment_loop r2 (js_plus (Some c) b) = (cont, r3)"
      by (cases "blockComment_loop r2 (js_plus (Some c) b)")
    obtain x r4 where n4: "Reader_next r3 = (x, r4)" by (cases "Reader_next r3")
    obtain y r5 where n5: "Reader_next r4 = (y, r5)" by (cases "Reader_next r4")
    have "length (input r2) \<le> length cs" using Reader_next_length [of ?r1] n2 by simp
    moreover have "length (input r3) \<le> length (input r2)"
      using blockComment_loop_length [of r2 "js_plus (Some c) b"] l by simp
    moreover have "length (input r4) \<le> length (input r3)"
      using Reader_next_length [of r3] n4 by simp
    moreover have "length (input r5) \<le> length (input r4)"
      using Reader_next_length [of r4] n5 by simp
    moreover have "blockComment r = add r5 (cont @ js_plus x y) (Some COMMENT)"
      using n n2 l n4 n5 by (simp add: blockComment_def)
    ultimately show ?thesis using assms by (simp add: add_input)
  qed
  show ?thesis using line block n assms by (simp add: Reader_COMMENT_def add_input)
qed

lemma Reader_STRING_length:
  assumes "input r = c # cs" and "Reader_STRING r = Inr r'"
  shows "length (input r') < length (input r)"
proof -
  let ?r1 = "r\<lparr>input := cs, line := (if c = NL then line r + 1 else line r)\<rparr>"
  have n: "Reader_next r = (Some c, ?r1)" using assms by (simp add: Reader_next_Cons)
  from assms(2) n obtain str r2 where l: "STRING_loop ?r1 c [c] = Inr (str, r2)"
    by (auto simp: Reader_STRING_def split: sum.splits)
  obtain x r3 where n3: "Reader_next r2 = (x, r3)" by (cases "Reader_next r2")
  from assms(2) n l n3 have "r' = add r3 (str @ js_string x) (Some STRING)"
    by (auto simp: Reader_STRING_def split: if_splits)
  moreover have "length (input r2) \<le> length cs" using STRING_loop_length [OF l] by simp
  moreover have "length (input r3) \<le> length (input r2)"
    using Reader_next_length [of r2] n3 by simp
  ultimately show ?thesis using assms by (simp add: add_input)
qed

lemma childContextStart_length:
  "childContextStart r = (b, r1) \<Longrightarrow> length (input r1) \<le> length (input r)"
  by (auto simp: childContextStart_def Reader_next_input split: if_splits)

lemma childContextStart_True_length:
  "childContextStart r = (True, r1) \<Longrightarrow> length (input r1) < length (input r)"
  by (cases "input r")
     (auto simp: childContextStart_def Reader_next_input Reader_peek_def Reader_peek2_def
      split: if_splits)

lemma childContextStart_False: "childContextStart r = (False, r1) \<Longrightarrow> r1 = r"
  by (auto simp: childContextStart_def split: if_splits)

lemma contextEnd_True_length:
  "contextEnd r = (True, r2) \<Longrightarrow> length (input r2) < length (input r)"
  by (auto simp: contextEnd_def Reader_next_input Reader_peek_def Reader_peek2_def
      endDelimiter_def add_input Let_def split: if_splits list.splits kind.splits prod.splits)

lemma contextEnd_False_length:
  "contextEnd r = (False, r2) \<Longrightarrow> length (input r2) \<le> length (input r)"
  by (auto simp: contextEnd_def Reader_next_def Reader_peek_def Reader_peek2_def
      endDelimiter_def add_input Let_def split: if_splits list.splits kind.splits prod.splits)

lemma endContext_input: "endContext r = Inr r' \<Longrightarrow> input r' = input r"
  by (auto simp: endContext_def split: list.splits)

lemma transpile_step_length:
  assumes "Reader_peek r = Some nxt" and "transpile_step r nxt = Inr r'"
  shows "length (input r') < length (input r)"
proof -
  from assms(1) obtain cs where inp: "input r = nxt # cs"
    by (auto simp: Reader_peek_def split: list.splits)
  consider (str) "quoteRegex nxt"
    | (com) "\<not> quoteRegex nxt" "nxt = CHR ''/''"
    | (ws) "\<not> quoteRegex nxt" "nxt \<noteq> CHR ''/''" "whitespaceRegex nxt"
    | (other) "\<not> quoteRegex nxt" "nxt \<noteq> CHR ''/''" "\<not> whitespaceRegex nxt" by blast
  then show ?thesis
  proof cases
    case str
    with assms(2) have "Reader_STRING r = Inr r'" by (simp add: transpile_step_def)
    from Reader_STRING_length [OF inp this] show ?thesis .
  next
    case com
    with assms(2) have "r' = Reader_COMMENT r" by (simp add: transpile_step_def)
    with Reader_COMMENT_length [OF inp] com show ?thesis by simp
  next
    case ws
    with assms(2) have "r' = Reader_WHITESPACE r" by (simp add: transpile_step_def)
    then show ?thesis using inp
      by (simp add: Reader_WHITESPACE_def Reader_next_Cons add_input)
  next
    case other
    obtain started r1 where s: "childContextStart r = (started, r1)"
      by (cases "childContextStart r")
    show ?thesis
    proof (cases started)
      case True
      with assms(2) other s have "r' = newContext r1" by (simp add: transpile_step_def)
      then show ?thesis using childContextStart_True_length [of r r1] s True
        by (simp add: newContext_def)
    next
      case False
      with s have r1: "r1 = r" by (simp add: childContextStart_False)
      obtain ended r2 where e: "contextEnd r = (ended, r2)" by (cases "contextEnd r")
      show ?thesis
      proof (cases ended)
        case True
        with assms(2) other s False r1 e have "endContext r2 = Inr r'"
          by (simp add: transpile_step_def)
        then show ?thesis using contextEnd_True_length [of r r2] e True
          by (simp add: endContext_input)
      next
        case notended: False
        obtain c r3 where n: "Reader_next r2 = (c, r3)" by (cases "Reader_next r2")
        from assms(2) other s False r1 e notended n have r': "r' = add r3 (js_string c) None"
          by (simp add: transpile_step_def)
        have le: "length (input r3) \<le> length (input r2)"
          using Reader_next_length [of r2] n by simp
        show ?thesis
        proof (cases "r2 = r")
          case True
          with n inp have "input r3 = cs" by (auto simp: Reader_next_Cons)
          with r' inp show ?thesis by (simp add: add_input)
        next
          case changed: False
          with e notended have "length (input r2) < length (input r)"
            by (auto simp: contextEnd_def Reader_next_def Reader_peek_def add_input Let_def
                split: if_splits list.splits kind.splits prod.splits)
          with le r' show ?thesis by (simp add: add_input)
        qed
      qed
    qed
  qed
qed

termination transpile_loop
  by (relation "measure (\<lambda>r. length (input r))") (auto simp: transpile_step_length)

declare transpile_loop.simps [simp del]

section \<open>Termination of the lexical check\<close>

lemma string_end_length: "string_end q cs = Some rest \<Longrightarrow> length rest \<le> length cs"
  by (induction cs) (auto split: if_splits)

lemma block_end_length: "block_end cs = Some rest \<Longrightarrow> length rest \<le> length cs"
  by (induction cs) (auto split: if_splits)

termination lexically_closed
proof (relation "measure length")
  show "wf (measure length)" by simp
next
  fix c cs rest
  assume "string_end c cs = Some rest"
  then show "(rest, c # cs) \<in> measure length" using string_end_length [of c cs rest] by simp
next
  fix c :: char and cs :: string
  have "length (dropWhile (\<lambda>x. x \<noteq> NL) cs) \<le> length cs" by (rule length_dropWhile_le)
  then show "(dropWhile (\<lambda>x. x \<noteq> NL) cs, c # cs) \<in> measure length" by simp
next
  fix c cs rest
  assume "block_end (tl cs) = Some rest"
  then have "length rest \<le> length (tl cs)" by (rule block_end_length)
  then show "(rest, c # cs) \<in> measure length" by simp
next
  fix c :: char and cs :: string
  show "(cs, c # cs) \<in> measure length" by simp
qed

section \<open>The string scanner\<close>

lemma reader_update_order [simp]:
  "input_update g (line_update f r) = line_update f (input_update g r)"
  "input_update g (ctx_update h r) = ctx_update h (input_update g r)"
  "input_update g (parents_update k r) = parents_update k (input_update g r)"
  "line_update f (ctx_update h r) = ctx_update h (line_update f r)"
  "line_update f (parents_update k r) = parents_update k (line_update f r)"
  "ctx_update h (parents_update k r) = parents_update k (ctx_update h r)"
  by (cases r; simp)+

lemma Reader_next_Nil: "input r = [] \<Longrightarrow> Reader_next r = (None, r)"
  by (simp add: Reader_next_def)

lemma Reader_peek_Cons: "input r = c # cs \<Longrightarrow> Reader_peek r = Some c"
  by (simp add: Reader_peek_def)

lemma Reader_peek_Nil: "input r = [] \<Longrightarrow> Reader_peek r = None"
  by (simp add: Reader_peek_def)

lemma Reader_error_frame [simp]:
  "Reader_error (r\<lparr>input := i\<rparr>) msg = Reader_error r msg"
  "Reader_error (r\<lparr>ctx := c\<rparr>) msg = Reader_error r msg"
  "Reader_error (r\<lparr>parents := ps\<rparr>) msg = Reader_error r msg"
  by (simp_all add: Reader_error_def)

lemma STRING_loop_Nil: "input r = [] \<Longrightarrow> STRING_loop r type str = Inr (str, r)"
  by (subst STRING_loop.simps) (simp add: Reader_peek_Nil)

lemma STRING_loop_close:
  "input r = type # rest \<Longrightarrow> STRING_loop r type str = Inr (str, r)"
  by (subst STRING_loop.simps) (simp add: Reader_peek_Cons)

lemma STRING_loop_escape:
  assumes "input r = BSL # c # rest" and "type \<noteq> BSL"
  shows "STRING_loop r type str =
         STRING_loop (r\<lparr>input := rest, line := (if c = NL then line r + 1 else line r)\<rparr>)
           type (str @ [c])"
  using assms
  by (subst STRING_loop.simps) (simp add: Reader_peek_Cons Reader_next_Cons js_string_def)

lemma STRING_loop_escape_eof:
  assumes "input r = [BSL]" and "type \<noteq> BSL"
  shows "STRING_loop r type str = Inr (str @ ''undefined'', r\<lparr>input := []\<rparr>)"
  using assms
  by (subst STRING_loop.simps)
     (simp add: Reader_peek_Cons Reader_next_Cons Reader_next_Nil js_string_def STRING_loop_Nil)

lemma STRING_loop_newline_error:
  assumes "input r = NL # rest" and "type \<noteq> NL" and "type \<noteq> BQ"
  shows "STRING_loop r type str = Inl (Reader_error r ''Unexpected multi-line string'')"
  using assms by (subst STRING_loop.simps) (simp add: Reader_peek_Cons)

lemma STRING_loop_newline_backtick:
  assumes "input r = NL # rest"
  shows "STRING_loop r BQ str = STRING_loop (r\<lparr>input := rest, line := line r + 1\<rparr>) BQ (str @ [NL])"
  using assms
  by (subst STRING_loop.simps) (simp add: Reader_peek_Cons Reader_next_Cons js_string_def)

lemma STRING_loop_ordinary:
  assumes "list_all (ordinary type) b" and "input r = b @ rest"
  shows "STRING_loop r type str = STRING_loop (r\<lparr>input := rest\<rparr>) type (str @ b)"
  using assms
proof (induction b arbitrary: r str)
  case Nil
  then have "r\<lparr>input := rest\<rparr> = r" by (cases r) simp
  then show ?case by simp
next
  case (Cons c b)
  from Cons.prems have oc: "ordinary type c" and b: "list_all (ordinary type) b"
    by simp_all
  from oc have c: "c \<noteq> type" "c \<noteq> BSL" "c \<noteq> NL"
    by (simp_all add: ordinary_def)
  let ?r1 = "r\<lparr>input := b @ rest\<rparr>"
  have "STRING_loop r type str = STRING_loop ?r1 type (str @ [c])"
    using Cons.prems(2) c
    by (subst STRING_loop.simps) (simp add: Reader_peek_Cons Reader_next_Cons js_string_def)
  also have "\<dots> = STRING_loop (?r1\<lparr>input := rest\<rparr>) type ((str @ [c]) @ b)"
    by (rule Cons.IH [OF b]) simp
  finally show ?case by simp
qed

lemma quoteRegex_not_special: "quoteRegex q \<Longrightarrow> q \<noteq> NL \<and> q \<noteq> BSL"
  by (auto simp: quoteRegex_def)

lemma Reader_STRING_unfold:
  assumes "input r = q # body" and "q \<noteq> NL"
  shows "Reader_STRING r =
         (case STRING_loop (r\<lparr>input := body\<rparr>) q [q] of
            Inl e \<Rightarrow> Inl e
          | Inr (str, r2) \<Rightarrow>
              if Reader_peek r2 \<noteq> Some q then Inl (Reader_error r2 ''Unexpected end of file'')
              else (let (c, r3) = Reader_next r2
                    in Inr (add r3 (str @ js_string c) (Some STRING))))"
  using assms by (simp add: Reader_STRING_def Reader_next_Cons)

lemma Reader_STRING_escape:
  assumes "quoteRegex q" and "list_all (ordinary q) b1" and "list_all (ordinary q) b2"
    and "input r = q # b1 @ BSL # c # b2 @ q # rest"
  shows "Reader_STRING r =
         Inr (add (r\<lparr>input := rest, line := (if c = NL then line r + 1 else line r)\<rparr>)
                (q # b1 @ c # b2 @ [q]) (Some STRING))"
proof -
  from assms(1) have q: "q \<noteq> NL" "q \<noteq> BSL" by (simp_all add: quoteRegex_not_special)
  let ?ln = "if c = NL then line r + 1 else line r"
  have "STRING_loop (r\<lparr>input := b1 @ BSL # c # b2 @ q # rest\<rparr>) q [q] =
        STRING_loop (r\<lparr>input := BSL # c # b2 @ q # rest\<rparr>) q (q # b1)"
    using STRING_loop_ordinary [OF assms(2), of "r\<lparr>input := b1 @ BSL # c # b2 @ q # rest\<rparr>"
        "BSL # c # b2 @ q # rest" "[q]"] by simp
  also have "\<dots> = STRING_loop (r\<lparr>input := b2 @ q # rest, line := ?ln\<rparr>) q (q # b1 @ [c])"
    using STRING_loop_escape [of "r\<lparr>input := BSL # c # b2 @ q # rest\<rparr>" c "b2 @ q # rest" q
        "q # b1"] q by simp
  also have "\<dots> = STRING_loop (r\<lparr>input := q # rest, line := ?ln\<rparr>) q (q # b1 @ c # b2)"
    using STRING_loop_ordinary [OF assms(3), of "r\<lparr>input := b2 @ q # rest, line := ?ln\<rparr>"
        "q # rest" "q # b1 @ [c]"] by simp
  also have "\<dots> = Inr (q # b1 @ c # b2, r\<lparr>input := q # rest, line := ?ln\<rparr>)"
    by (simp add: STRING_loop_close)
  finally show ?thesis using assms(4) q
    by (simp add: Reader_STRING_unfold Reader_peek_Cons Reader_next_Cons js_string_def)
qed

lemma Reader_STRING_newline_error:
  assumes "quoteRegex q" and "q \<noteq> BQ" and "list_all (ordinary q) b"
    and "input r = q # b @ NL # rest"
  shows "Reader_STRING r = Inl (Reader_error r ''Unexpected multi-line string'')"
proof -
  from assms(1) have q: "q \<noteq> NL" by (simp add: quoteRegex_not_special)
  have "STRING_loop (r\<lparr>input := b @ NL # rest\<rparr>) q [q] =
        STRING_loop (r\<lparr>input := NL # rest\<rparr>) q (q # b)"
    using STRING_loop_ordinary [OF assms(3), of "r\<lparr>input := b @ NL # rest\<rparr>" "NL # rest" "[q]"]
    by simp
  also have "\<dots> = Inl (Reader_error r ''Unexpected multi-line string'')"
    using STRING_loop_newline_error [of "r\<lparr>input := NL # rest\<rparr>" rest q "q # b"] q assms(2)
    by simp
  finally show ?thesis using assms(4) q by (simp add: Reader_STRING_unfold)
qed

lemma transpile_loop_error:
  "Reader_peek r = Some nxt \<Longrightarrow> transpile_step r nxt = Inl e \<Longrightarrow> transpile_loop r = Inl e"
  by (subst transpile_loop.simps) simp

lemma transpile_loop_step:
  "Reader_peek r = Some nxt \<Longrightarrow> transpile_step r nxt = Inr r' \<Longrightarrow>
   transpile_loop r = transpile_loop r'"
  by (subst transpile_loop.simps) simp

lemma transpile_loop_Nil: "input r = [] \<Longrightarrow> transpile_loop r = Inr r"
  by (subst transpile_loop.simps) (simp add: Reader_peek_Nil)

lemma transpile_step_quote: "quoteRegex nxt \<Longrightarrow> transpile_step r nxt = Reader_STRING r"
  by (simp add: transpile_step_def)

lemma loop_steps_transpile_loop:
  "loop_steps n r = Inr r' \<Longrightarrow> transpile_loop r = transpile_loop r'"
proof (induction n arbitrary: r)
  case 0
  then show ?case by simp
next
  case (Suc n)
  show ?case
  proof (cases "Reader_peek r")
    case None
    with Suc.prems show ?thesis by simp
  next
    case (Some nxt)
    with Suc.prems obtain r1 where s: "transpile_step r nxt = Inr r1" and l: "loop_steps n r1 = Inr r'"
      by (auto split: sum.splits)
    from transpile_loop_step [OF Some s] Suc.IH [OF l] show ?thesis by simp
  qed
qed

lemma transpile_abort:
  assumes "loop_steps n r0 = Inr r" and "Reader_peek r = Some nxt"
    and "transpile_step r nxt = Inl e"
  shows "transpile r0 = Inl e"
  using loop_steps_transpile_loop [OF assms(1)] transpile_loop_error [OF assms(2,3)]
  by (simp add: transpile_def)

lemma Reader_next_frame:
  "filename (snd (Reader_next r)) = filename r"
  "ctx (snd (Reader_next r)) = ctx r"
  "parents (snd (Reader_next r)) = parents r"
  by (simp_all add: Reader_next_def split: list.splits)

lemma Reader_error_cong:
  "filename r = filename r' \<Longrightarrow> line r = line r' \<Longrightarrow> Reader_error r msg = Reader_error r' msg"
  by (simp add: Reader_error_def)

lemma replace_quotes_concat:
  "replace_quotes s = concat (map (\<lambda>x. if x = SQ then [BSL, BSL, BSL, SQ] else [x]) s)"
  by (induction s) simp_all

lemma replace_quotes_id: "SQ \<notin> set s \<Longrightarrow> replace_quotes s = s"
  by (induction s) auto

lemma ordinary_not_type: "list_all (ordinary q) b \<Longrightarrow> q \<notin> set b"
  by (induction b) (auto simp: ordinary_def)

lemma STRING_loop_step:
  assumes "input r = c # rest" and "c \<noteq> type" and "c \<noteq> BSL" and "type = BQ \<or> c \<noteq> NL"
  shows "STRING_loop r type str =
         STRING_loop (r\<lparr>input := rest, line := (if c = NL then line r + 1 else line r)\<rparr>)
           type (str @ [c])"
  using assms
  by (subst STRING_loop.simps) (auto simp: Reader_peek_Cons Reader_next_Cons js_string_def)

lemma STRING_loop_body:
  assumes "type \<noteq> BSL" and "string_body type b" and "input r = b @ rest"
  shows "STRING_loop r type str =
         STRING_loop (r\<lparr>input := rest, line := line r + count_list b NL\<rparr>) type
           (str @ unescape b)"
  using assms
proof (induction type b arbitrary: r str rule: string_body.induct)
  case (1 type)
  then have "r\<lparr>input := rest, line := line r + count_list [] NL\<rparr> = r" by (cases r) simp
  then show ?case by simp
next
  case (2 type c)
  then have "STRING_loop r type str =
         STRING_loop (r\<lparr>input := rest, line := (if c = NL then line r + 1 else line r)\<rparr>)
           type (str @ [c])"
    by (intro STRING_loop_step) simp_all
  then show ?case by simp
next
  case (3 type c d cs)
  show ?case
  proof (cases "c = BSL")
    case True
    let ?r1 = "r\<lparr>input := cs @ rest, line := (if d = NL then line r + 1 else line r)\<rparr>"
    have "STRING_loop r type str = STRING_loop ?r1 type (str @ [d])"
      using "3.prems"(1,3) True by (intro STRING_loop_escape) simp_all
    also have "\<dots> = STRING_loop (?r1\<lparr>input := rest, line := line ?r1 + count_list cs NL\<rparr>)
                       type ((str @ [d]) @ unescape cs)"
      using "3.prems"(1,2) True by (intro "3.IH"(1)) simp_all
    finally show ?thesis using True by simp
  next
    case False
    from "3.prems"(2) False have c: "c \<noteq> type" "type = BQ \<or> c \<noteq> NL"
      and b: "string_body type (d # cs)" by simp_all
    let ?r1 = "r\<lparr>input := d # cs @ rest, line := (if c = NL then line r + 1 else line r)\<rparr>"
    have "STRING_loop r type str = STRING_loop ?r1 type (str @ [c])"
      using "3.prems"(3) c False by (intro STRING_loop_step) simp_all
    also have "\<dots> = STRING_loop (?r1\<lparr>input := rest, line := line ?r1 + count_list (d # cs) NL\<rparr>)
                       type ((str @ [c]) @ unescape (d # cs))"
      using False b "3.prems"(1) by (intro "3.IH"(2)) simp_all
    finally show ?thesis using False by simp
  qed
qed

lemma string_body_cases:
  assumes "type \<noteq> BSL"
  shows "\<exists>b. string_body type b
             \<and> (body = b \<or> body = b @ [BSL] \<or> (\<exists>rest. body = b @ type # rest)
                \<or> (type \<noteq> BQ \<and> (\<exists>rest. body = b @ NL # rest)))"
proof (induction body rule: unescape.induct)
  case 1
  have "string_body type []" by simp
  then show ?case by blast
next
  case (2 c)
  consider (t) "c = type" | (e) "c \<noteq> type" "c = BSL" | (n) "c \<noteq> type" "c \<noteq> BSL" "c = NL" "type \<noteq> BQ"
    | (o) "c \<noteq> type" "c \<noteq> BSL" "type = BQ \<or> c \<noteq> NL" by blast
  then show ?case
  proof cases
    case t
    then have "string_body type [] \<and> [c] = [] @ type # []" by simp
    then show ?thesis by blast
  next
    case e
    then have "string_body type [] \<and> [c] = [] @ [BSL]" by simp
    then show ?thesis by blast
  next
    case n
    then have "string_body type [] \<and> type \<noteq> BQ \<and> [c] = [] @ NL # []" by simp
    then show ?thesis by blast
  next
    case o
    then have "string_body type [c]" by simp
    then show ?thesis by blast
  qed
next
  case (3 c d cs)
  consider (t) "c = type" | (e) "c \<noteq> type" "c = BSL" | (n) "c \<noteq> type" "c \<noteq> BSL" "c = NL" "type \<noteq> BQ"
    | (o) "c \<noteq> type" "c \<noteq> BSL" "type = BQ \<or> c \<noteq> NL" by blast
  then show ?case
  proof cases
    case t
    then have "string_body type [] \<and> c # d # cs = [] @ type # (d # cs)" by simp
    then show ?thesis by blast
  next
    case n
    then have "string_body type [] \<and> type \<noteq> BQ \<and> c # d # cs = [] @ NL # (d # cs)" by simp
    then show ?thesis by blast
  next
    case e
    from "3.IH"(1) [OF e(2)] obtain b where b: "string_body type b"
      and cs: "cs = b \<or> cs = b @ [BSL] \<or> (\<exists>rest. cs = b @ type # rest)
                \<or> (type \<noteq> BQ \<and> (\<exists>rest. cs = b @ NL # rest))" by blast
    have sb: "string_body type (c # d # b)" using e b by simp
    from cs have "c # d # cs = (c # d # b) \<or> c # d # cs = (c # d # b) @ [BSL]
        \<or> (\<exists>rest. c # d # cs = (c # d # b) @ type # rest)
        \<or> (type \<noteq> BQ \<and> (\<exists>rest. c # d # cs = (c # d # b) @ NL # rest))"
      by auto
    with sb show ?thesis by blast
  next
    case o
    from "3.IH"(2) [OF o(2)] obtain b where b: "string_body type b"
      and cs: "d # cs = b \<or> d # cs = b @ [BSL] \<or> (\<exists>rest. d # cs = b @ type # rest)
                \<or> (type \<noteq> BQ \<and> (\<exists>rest. d # cs = b @ NL # rest))" by blast
    have sb: "string_body type (c # b)" using o b by (cases b) auto
    from cs have "c # d # cs = (c # b) \<or> c # d # cs = (c # b) @ [BSL]
        \<or> (\<exists>rest. c # d # cs = (c # b) @ type # rest)
        \<or> (type \<noteq> BQ \<and> (\<exists>rest. c # d # cs = (c # b) @ NL # rest))"
      by auto
    with sb show ?thesis by blast
  qed
qed

lemma Reader_STRING_body_closed:
  assumes "quoteRegex q" and "string_body q b" and "input r = q # b @ q # rest"
  shows "Reader_STRING r =
         Inr (add (r\<lparr>input := rest, line := line r + count_list b NL\<rparr>)
                (q # unescape b @ [q]) (Some STRING))"
proof -
  from assms(1) have q: "q \<noteq> NL" "q \<noteq> BSL" by (simp_all add: quoteRegex_not_special)
  let ?r2 = "r\<lparr>input := q # rest, line := line r + count_list b NL\<rparr>"
  have "STRING_loop (r\<lparr>input := b @ q # rest\<rparr>) q [q] = STRING_loop ?r2 q ([q] @ unescape b)"
    using STRING_loop_body [OF q(2) assms(2), of "r\<lparr>input := b @ q # rest\<rparr>" "q # rest" "[q]"]
    by simp
  also have "\<dots> = Inr (q # unescape b, ?r2)" by (simp add: STRING_loop_close)
  finally show ?thesis using assms(3) q
    by (simp add: Reader_STRING_unfold Reader_peek_Cons Reader_next_Cons js_string_def)
qed

lemma Reader_STRING_body_newline:
  assumes "q = SQ \<or> q = DQ" and "string_body q b" and "input r = q # b @ NL # rest"
  shows "Reader_STRING r =
         Inl (Reader_error (r\<lparr>line := line r + count_list b NL\<rparr>) ''Unexpected multi-line string'')"
proof -
  from assms(1) have q: "q \<noteq> NL" "q \<noteq> BSL" "q \<noteq> BQ" by auto
  let ?r2 = "r\<lparr>input := NL # rest, line := line r + count_list b NL\<rparr>"
  have "STRING_loop (r\<lparr>input := b @ NL # rest\<rparr>) q [q] = STRING_loop ?r2 q ([q] @ unescape b)"
    using STRING_loop_body [OF q(2) assms(2), of "r\<lparr>input := b @ NL # rest\<rparr>" "NL # rest" "[q]"]
    by simp
  also have "\<dots> = Inl (Reader_error ?r2 ''Unexpected multi-line string'')"
    using q by (intro STRING_loop_newline_error [of ?r2 rest]) simp_all
  also have "Reader_error ?r2 ''Unexpected multi-line string'' =
             Reader_error (r\<lparr>line := line r + count_list b NL\<rparr>) ''Unexpected multi-line string''"
    by (rule Reader_error_cong) simp_all
  finally show ?thesis using assms(3) q by (simp add: Reader_STRING_unfold)
qed

lemma Reader_STRING_body_eof:
  assumes "quoteRegex q" and "string_body q b" and "input r = q # b \<or> input r = q # b @ [BSL]"
  shows "Reader_STRING r =
         Inl (Reader_error (r\<lparr>line := line r + count_list b NL\<rparr>) ''Unexpected end of file'')"
proof -
  from assms(1) have q: "q \<noteq> NL" "q \<noteq> BSL" by (simp_all add: quoteRegex_not_special)
  let ?r2 = "r\<lparr>input := [], line := line r + count_list b NL\<rparr>"
  have e: "Reader_error ?r2 ''Unexpected end of file'' =
        Reader_error (r\<lparr>line := line r + count_list b NL\<rparr>) ''Unexpected end of file''"
    by (rule Reader_error_cong) simp_all
  from assms(3) show ?thesis
  proof
    assume i: "input r = q # b"
    have "STRING_loop (r\<lparr>input := b\<rparr>) q [q] = STRING_loop ?r2 q ([q] @ unescape b)"
      using STRING_loop_body [OF q(2) assms(2), of "r\<lparr>input := b\<rparr>" "[]" "[q]"] by simp
    also have "\<dots> = Inr (q # unescape b, ?r2)" by (simp add: STRING_loop_Nil)
    finally show ?thesis using i q e by (simp add: Reader_STRING_unfold Reader_peek_Nil)
  next
    assume i: "input r = q # b @ [BSL]"
    let ?r1 = "r\<lparr>input := [BSL], line := line r + count_list b NL\<rparr>"
    have "STRING_loop (r\<lparr>input := b @ [BSL]\<rparr>) q [q] = STRING_loop ?r1 q ([q] @ unescape b)"
      using STRING_loop_body [OF q(2) assms(2), of "r\<lparr>input := b @ [BSL]\<rparr>" "[BSL]" "[q]"] by simp
    also have "\<dots> = Inr (([q] @ unescape b) @ ''undefined'', ?r1\<lparr>input := []\<rparr>)"
      using q by (intro STRING_loop_escape_eof) simp_all
    finally show ?thesis using i q e by (simp add: Reader_STRING_unfold Reader_peek_Nil)
  qed
qed

lemma ordinary_string_body:
  "list_all (ordinary q) b \<Longrightarrow> string_body q b \<and> unescape b = b \<and> count_list b NL = 0"
  by (induction q b rule: string_body.induct) (auto simp: ordinary_def)

section \<open>The driver, one pass at a time\<close>

lemma Reader_peek2_Cons2: "input r = a # b # cs \<Longrightarrow> Reader_peek2 r = [a, b]"
  by (simp add: Reader_peek2_def)

lemma Reader_peek2_first: "input r = a # cs \<Longrightarrow> x \<noteq> a \<Longrightarrow> Reader_peek2 r \<noteq> [x, y]"
  by (cases cs) (simp_all add: Reader_peek2_def)

lemma add_content_simp:
  "str \<noteq> ''['' \<Longrightarrow> add_content c str = c\<lparr>content := content c @ str\<rparr>"
  by (simp add: add_content_def beforeAdd_def)

lemma plain_step:
  assumes "plain x" and "input r = x # xs"
  shows "transpile_step r x =
         Inr (r\<lparr>input := xs, ctx := (ctx r)\<lparr>content := content (ctx r) @ [x]\<rparr>\<rparr>)"
proof -
  from assms(1) have x: "\<not> quoteRegex x" "x \<noteq> CHR ''/''" "\<not> whitespaceRegex x"
    "x \<noteq> CHR ''<''" "x \<noteq> CHR ''>''" "x \<noteq> CHR ''[''" "x \<noteq> CHR '']''"
    by (simp_all add: plain_def)
  from x(3) have nl: "x \<noteq> NL" by (auto simp: whitespaceRegex_def)
  have p2: "Reader_peek2 r \<noteq> ''<<''" "Reader_peek2 r \<noteq> ''>>''"
    using Reader_peek2_first [OF assms(2), of "CHR ''<''" "CHR ''<''"]
      Reader_peek2_first [OF assms(2), of "CHR ''>''" "CHR ''>''"] x by auto
  have s: "childContextStart r = (False, r)"
    using assms(2) x p2 by (simp add: childContextStart_def Reader_peek_Cons)
  have e: "contextEnd r = (False, r)"
    using assms(2) x p2
    by (simp add: contextEnd_def Reader_peek_Cons endDelimiter_def split: kind.splits)
  show ?thesis
    using x s e assms(2) nl
    by (simp add: transpile_step_def Reader_next_Cons add_def Context_add_def js_string_def
        add_content_simp)
qed

lemma plain_loop:
  assumes "list_all plain p" and "input r = p @ rest"
  shows "transpile_loop r =
         transpile_loop (r\<lparr>input := rest, ctx := (ctx r)\<lparr>content := content (ctx r) @ p\<rparr>\<rparr>)"
  using assms
proof (induction p arbitrary: r)
  case Nil
  then have "r\<lparr>input := rest, ctx := (ctx r)\<lparr>content := content (ctx r) @ []\<rparr>\<rparr> = r"
    by (cases r) simp
  then show ?case by simp
next
  case (Cons x p)
  from Cons.prems have x: "plain x" and p: "list_all plain p" by simp_all
  let ?r1 = "r\<lparr>input := p @ rest, ctx := (ctx r)\<lparr>content := content (ctx r) @ [x]\<rparr>\<rparr>"
  have "transpile_loop r = transpile_loop ?r1"
    using plain_step [OF x, of r "p @ rest"] Cons.prems(2)
    by (intro transpile_loop_step [of r x]) (simp_all add: Reader_peek_Cons)
  also have "\<dots> = transpile_loop (?r1\<lparr>input := rest,
       ctx := (ctx ?r1)\<lparr>content := content (ctx ?r1) @ p\<rparr>\<rparr>)"
    by (rule Cons.IH [OF p]) simp
  finally show ?case by simp
qed

lemma step_open_hss:
  assumes "kind (ctx r) \<noteq> HssContext" and "input r = CHR ''<'' # CHR ''<'' # xs"
  shows "transpile_step r (CHR ''<'') =
         Inr (r\<lparr>input := xs, ctx := new_Context HssContext (line r), parents := ctx r # parents r\<rparr>)"
  using assms
  by (cases "kind (ctx r)")
     (simp_all add: transpile_step_def quoteRegex_def whitespaceRegex_def childContextStart_def
      Reader_peek2_Cons2 Reader_next_Cons newContext_def child_kind_def)

lemma step_open_js:
  assumes "kind (ctx r) = HssContext" and "input r = CHR ''['' # xs"
  shows "transpile_step r (CHR ''['') =
         Inr (r\<lparr>input := xs, ctx := new_Context JsContext (line r), parents := ctx r # parents r\<rparr>)"
  using assms
  by (simp add: transpile_step_def quoteRegex_def whitespaceRegex_def childContextStart_def
      Reader_peek_Cons Reader_next_Cons newContext_def child_kind_def)

lemma step_close_hss:
  assumes "kind (ctx r) = HssContext" and "input r = CHR ''>'' # CHR ''>'' # xs"
    and "parents r = p # ps"
  shows "transpile_step r (CHR ''>'') =
         Inr (r\<lparr>input := xs, ctx := saveChildContent p (toString (ctx r)), parents := ps\<rparr>)"
  using assms
  by (simp add: transpile_step_def quoteRegex_def whitespaceRegex_def childContextStart_def
      contextEnd_def endDelimiter_def Reader_peek_Cons Reader_peek2_Cons2 Reader_next_Cons
      endContext_def)

lemma step_close_js:
  assumes "kind (ctx r) = JsContext" and "ignoreCount (ctx r) = 0" and "input r = CHR '']'' # xs"
    and "parents r = p # ps"
  shows "transpile_step r (CHR '']'') =
         Inr (r\<lparr>input := xs, ctx := saveChildContent p (toString (ctx r)), parents := ps\<rparr>)"
proof -
  have "Reader_peek2 r \<noteq> ''<<''"
    using Reader_peek2_first [OF assms(3), of "CHR ''<''" "CHR ''<''"] by simp
  then show ?thesis using assms
    by (simp add: transpile_step_def quoteRegex_def whitespaceRegex_def childContextStart_def
      contextEnd_def endDelimiter_def Reader_peek_Cons Reader_next_Cons endContext_def)
qed

lemma step_bracket_js:
  assumes "kind (ctx r) = JsContext" and "input r = CHR ''['' # xs"
  shows "transpile_step r (CHR ''['') =
         Inr (r\<lparr>input := xs,
                ctx := (ctx r)\<lparr>ignoreCount := ignoreCount (ctx r) + 1,
                               content := content (ctx r) @ ''[''\<rparr>\<rparr>)"
proof -
  have "Reader_peek2 r \<noteq> ''<<''"
    using Reader_peek2_first [OF assms(2), of "CHR ''<''" "CHR ''<''"] by simp
  then show ?thesis using assms
    by (simp add: transpile_step_def quoteRegex_def whitespaceRegex_def childContextStart_def
      contextEnd_def endDelimiter_def Reader_peek_Cons Reader_next_Cons add_def Context_add_def
      add_content_def beforeAdd_def js_string_def)
qed

lemma step_suppressed_close:
  assumes "kind (ctx r) = JsContext" and "ignoreCount (ctx r) = Suc n"
    and "input r = CHR '']'' # x # xs"
  shows "transpile_step r (CHR '']'') =
         Inr (r\<lparr>input := xs, line := (if x = NL then line r + 1 else line r),
                ctx := (ctx r)\<lparr>ignoreCount := (if x = CHR ''['' then Suc n else n),
                               content := content (ctx r) @ [CHR '']'', x]\<rparr>\<rparr>)"
proof -
  have "Reader_peek2 r \<noteq> ''<<''"
    using Reader_peek2_first [OF assms(3), of "CHR ''<''" "CHR ''<''"] by simp
  then show ?thesis using assms
    by (simp add: transpile_step_def quoteRegex_def whitespaceRegex_def childContextStart_def
      contextEnd_def endDelimiter_def Reader_peek_Cons Reader_next_Cons add_def Context_add_def
      add_content_def beforeAdd_def js_string_def Let_def)
qed

lemma loop_open_hss:
  assumes "kind (ctx r) \<noteq> HssContext" and "input r = ''<<'' @ xs"
  shows "transpile_loop r =
         transpile_loop (r\<lparr>input := xs, ctx := new_Context HssContext (line r),
                            parents := ctx r # parents r\<rparr>)"
  using assms step_open_hss [of r xs]
  by (intro transpile_loop_step [of r "CHR ''<''"]) (simp_all add: Reader_peek_Cons)

lemma loop_open_js:
  assumes "kind (ctx r) = HssContext" and "input r = ''['' @ xs"
  shows "transpile_loop r =
         transpile_loop (r\<lparr>input := xs, ctx := new_Context JsContext (line r),
                            parents := ctx r # parents r\<rparr>)"
  using assms step_open_js [of r xs]
  by (intro transpile_loop_step [of r "CHR ''[''"]) (simp_all add: Reader_peek_Cons)

lemma loop_close_hss:
  assumes "kind (ctx r) = HssContext" and "input r = ''>>'' @ xs" and "parents r = p # ps"
  shows "transpile_loop r =
         transpile_loop (r\<lparr>input := xs, ctx := saveChildContent p (toString (ctx r)),
                            parents := ps\<rparr>)"
  using assms step_close_hss [of r xs p ps]
  by (intro transpile_loop_step [of r "CHR ''>''"]) (simp_all add: Reader_peek_Cons)

lemma loop_close_js:
  assumes "kind (ctx r) = JsContext" and "ignoreCount (ctx r) = 0" and "input r = '']'' @ xs"
    and "parents r = p # ps"
  shows "transpile_loop r =
         transpile_loop (r\<lparr>input := xs, ctx := saveChildContent p (toString (ctx r)),
                            parents := ps\<rparr>)"
  using assms step_close_js [of r xs p ps]
  by (intro transpile_loop_step [of r "CHR '']''"]) (simp_all add: Reader_peek_Cons)

lemma trim_Nil: "trim [] = []"
  by (simp add: trim_def)

lemma trim_id:
  assumes "s \<noteq> []" and "\<not> whitespaceRegex (hd s)" and "\<not> whitespaceRegex (last s)"
  shows "trim s = s"
proof -
  have "dropWhile whitespaceRegex s = s" using assms(1,2) by (cases s) simp_all
  moreover have "dropWhile whitespaceRegex (rev s) = rev s"
    using assms(1,3) by (cases "rev s") (simp_all add: last_rev [symmetric] del: last_rev)
  ultimately show ?thesis by (simp add: trim_def)
qed

lemma plain_not_whitespace: "plain c \<Longrightarrow> \<not> whitespaceRegex c"
  by (simp add: plain_def)

lemma trim_plain: "list_all plain s \<Longrightarrow> trim s = s"
proof (cases "s = []")
  case True
  then show ?thesis by (simp add: trim_Nil)
next
  case False
  assume "list_all plain s"
  with False have "plain (hd s)" "plain (last s)" by (simp_all add: list_all_iff)
  then show ?thesis using False by (intro trim_id) (simp_all add: plain_not_whitespace)
qed

lemma trim_between_plain:
  assumes "list_all plain a" and "list_all plain e" and "\<not> whitespaceRegex x"
    and "\<not> whitespaceRegex y"
  shows "trim (a @ x # m @ y # e) = a @ x # m @ y # e"
proof (rule trim_id)
  show "a @ x # m @ y # e \<noteq> []" by simp
  show "\<not> whitespaceRegex (hd (a @ x # m @ y # e))"
    using assms(1,3) by (cases a) (simp_all add: plain_not_whitespace)
  show "\<not> whitespaceRegex (last (a @ x # m @ y # e))"
    using assms(2,4) by (cases e rule: rev_cases) (simp_all add: plain_not_whitespace)
qed

lemma step_whitespace:
  assumes "whitespaceRegex x" and "input r = x # xs"
  shows "transpile_step r x =
         Inr (r\<lparr>input := xs, line := (if x = NL then line r + 1 else line r),
                ctx := Context_add (ctx r) [x] (Some WHITESPACE)\<rparr>)"
proof -
  from assms(1) have "\<not> quoteRegex x" "x \<noteq> CHR ''/''"
    by (auto simp: whitespaceRegex_def quoteRegex_def)
  then show ?thesis using assms
    by (simp add: transpile_step_def Reader_WHITESPACE_def Reader_next_Cons add_def js_string_def)
qed

lemma whitespaceRegex_NL: "whitespaceRegex NL"
  by (simp add: whitespaceRegex_def)

lemma root_newlines:
  assumes "kind (ctx r) = RootContext" and "input r = replicate k NL @ rest"
  shows "transpile_loop r =
         transpile_loop (r\<lparr>input := rest, line := line r + k,
                            ctx := (ctx r)\<lparr>content := content (ctx r) @ replicate k NL\<rparr>\<rparr>)"
  using assms
proof (induction k arbitrary: r)
  case 0
  then have "r\<lparr>input := rest, line := line r + 0,
               ctx := (ctx r)\<lparr>content := content (ctx r) @ replicate 0 NL\<rparr>\<rparr> = r"
    by (cases r) simp
  then show ?case by simp
next
  case (Suc k)
  let ?r1 = "r\<lparr>input := replicate k NL @ rest, line := line r + 1,
               ctx := (ctx r)\<lparr>content := content (ctx r) @ [NL]\<rparr>\<rparr>"
  have "transpile_step r NL = Inr ?r1"
    using step_whitespace [OF whitespaceRegex_NL, of r "replicate k NL @ rest"] Suc.prems
    by (simp add: Context_add_def add_content_simp)
  then have "transpile_loop r = transpile_loop ?r1"
    using Suc.prems(2) by (intro transpile_loop_step [of r NL]) (simp_all add: Reader_peek_Cons)
  also have "\<dots> = transpile_loop (?r1\<lparr>input := rest, line := line ?r1 + k,
       ctx := (ctx ?r1)\<lparr>content := content (ctx ?r1) @ replicate k NL\<rparr>\<rparr>)"
    using Suc.prems(1) by (intro Suc.IH) simp_all
  finally show ?case by (simp add: replicate_app_Cons_same)
qed

lemma ChildContext_WHITESPACE_frame:
  "kind (ChildContext_WHITESPACE c) = kind c"
  "startingLine (ChildContext_WHITESPACE c) = startingLine c"
  "ignoreCount (ChildContext_WHITESPACE c) = ignoreCount c"
  by (simp_all add: ChildContext_WHITESPACE_def add_content_simp)

lemma child_newlines:
  assumes "kind (ctx r) \<noteq> RootContext" and "input r = replicate m NL @ rest"
  shows "\<exists>c'. transpile_loop r = transpile_loop (r\<lparr>input := rest, line := line r + m, ctx := c'\<rparr>)
              \<and> kind c' = kind (ctx r) \<and> startingLine c' = startingLine (ctx r)"
  using assms
proof (induction m arbitrary: r)
  case 0
  then have "r\<lparr>input := rest, line := line r + 0, ctx := ctx r\<rparr> = r"
    by (cases r) simp
  then have "transpile_loop r = transpile_loop (r\<lparr>input := rest, line := line r + 0, ctx := ctx r\<rparr>)"
    by simp
  then show ?case by blast
next
  case (Suc m)
  let ?c1 = "ChildContext_WHITESPACE (ctx r)"
  let ?r1 = "r\<lparr>input := replicate m NL @ rest, line := line r + 1, ctx := ?c1\<rparr>"
  have "transpile_step r NL = Inr ?r1"
    using step_whitespace [OF whitespaceRegex_NL, of r "replicate m NL @ rest"] Suc.prems
    by (simp add: Context_add_def)
  then have eq: "transpile_loop r = transpile_loop ?r1"
    using Suc.prems(2) by (intro transpile_loop_step [of r NL]) (simp_all add: Reader_peek_Cons)
  have "\<exists>c'. transpile_loop ?r1 =
          transpile_loop (?r1\<lparr>input := rest, line := line ?r1 + m, ctx := c'\<rparr>)
        \<and> kind c' = kind (ctx ?r1) \<and> startingLine c' = startingLine (ctx ?r1)"
    using Suc.prems(1) by (intro Suc.IH) (simp_all add: ChildContext_WHITESPACE_frame)
  then obtain c' where "transpile_loop ?r1 =
          transpile_loop (?r1\<lparr>input := rest, line := line ?r1 + m, ctx := c'\<rparr>)"
    and "kind c' = kind (ctx r)" and "startingLine c' = startingLine (ctx r)"
    by (auto simp: ChildContext_WHITESPACE_frame)
  with eq show ?case by (intro exI [of _ c']) simp
qed

lemma transpile_unterminated:
  assumes "transpile_loop r = Inr r'" and "kind (ctx r') \<noteq> RootContext"
  shows "transpile r =
         Inl (Reader_error r' (unterminated_message (kind (ctx r')) (startingLine (ctx r'))))"
  using assms by (simp add: transpile_def)

lemma transpile_loop_exhausts: "transpile_loop r = Inr r' \<Longrightarrow> input r' = []"
proof (induction r rule: transpile_loop.induct)
  case (1 r)
  show ?case
  proof (cases "Reader_peek r")
    case None
    with "1.prems" have "r' = r" by (subst (asm) transpile_loop.simps) simp
    with None show ?thesis by (simp add: Reader_peek_def split: list.splits)
  next
    case (Some nxt)
    with "1.prems" obtain r1 where s: "transpile_step r nxt = Inr r1"
      and l: "transpile_loop r1 = Inr r'"
      by (subst (asm) transpile_loop.simps) (auto split: sum.splits)
    from "1.IH" [OF Some s l] show ?thesis .
  qed
qed

lemma unterminated_hss_lines:
  assumes "list_all plain p"
  shows "transpile (Transpiler fname (replicate k NL @ ''<<'' @ p @ replicate m NL)) =
         Inl (SyntaxError (''Hss Error in '' @ fname @ '' on line '' @ show_nat (1 + k + m) @ [NL]
              @ unterminated_message HssContext (1 + k)))"
proof -
  let ?r0 = "Transpiler fname (replicate k NL @ ''<<'' @ p @ replicate m NL)"
  let ?root = "(ctx ?r0)\<lparr>content := replicate k NL\<rparr>"
  let ?r1 = "?r0\<lparr>input := ''<<'' @ p @ replicate m NL, line := 1 + k, ctx := ?root\<rparr>"
  let ?r2 = "?r1\<lparr>input := p @ replicate m NL, ctx := new_Context HssContext (1 + k),
                parents := [?root]\<rparr>"
  let ?r3 = "?r2\<lparr>input := replicate m NL, ctx := (new_Context HssContext (1 + k))\<lparr>content := p\<rparr>\<rparr>"
  have "transpile_loop ?r0 = transpile_loop ?r1"
    by (subst root_newlines [where k = k and rest = "''<<'' @ p @ replicate m NL"])
       (simp_all add: Transpiler_def new_Context_def)
  also have "\<dots> = transpile_loop ?r2"
    by (subst loop_open_hss [where xs = "p @ replicate m NL"])
       (simp_all add: Transpiler_def new_Context_def)
  also have "\<dots> = transpile_loop ?r3"
    by (subst plain_loop [OF assms, where rest = "replicate m NL"])
       (simp_all add: new_Context_def)
  finally have a: "transpile_loop ?r0 = transpile_loop ?r3" .
  have "kind (ctx ?r3) \<noteq> RootContext" by (simp add: new_Context_def)
  from child_newlines [OF this, of m "[]"]
  obtain c' where b: "transpile_loop ?r3 = transpile_loop (?r3\<lparr>input := [], line := line ?r3 + m, ctx := c'\<rparr>)"
    and k: "kind c' = HssContext" and sl: "startingLine c' = 1 + k"
    by (auto simp: new_Context_def)
  let ?r4 = "?r3\<lparr>input := [], line := line ?r3 + m, ctx := c'\<rparr>"
  have "transpile_loop ?r0 = Inr ?r4" using a b by (simp add: transpile_loop_Nil)
  from transpile_unterminated [OF this] k sl show ?thesis
    by (simp add: Reader_error_def Transpiler_def)
qed

lemma childContextStart_line: "childContextStart r = (True, r1) \<Longrightarrow> line r1 = line r"
proof (cases "kind (ctx r) = HssContext")
  case True
  assume "childContextStart r = (True, r1)"
  with True show ?thesis
    by (cases "input r")
       (auto simp: childContextStart_def Reader_peek_def Reader_next_def split: if_splits)
next
  case False
  assume a: "childContextStart r = (True, r1)"
  with False have p: "Reader_peek2 r = ''<<''"
    by (auto simp: childContextStart_def split: if_splits)
  then obtain xs where "input r = CHR ''<'' # CHR ''<'' # xs"
    by (cases "input r"; cases "tl (input r)") (auto simp: Reader_peek2_def)
  with a False show ?thesis
    by (auto simp: childContextStart_def Reader_peek2_def Reader_next_def split: if_splits)
qed

section \<open>Comments and strings met by the driver\<close>

lemma lineComment_loop_Nil: "input r = [] \<Longrightarrow> lineComment_loop r cont = (cont, r)"
  by (subst lineComment_loop.simps) (simp add: Reader_peek_Nil)

lemma lineComment_loop_NL: "input r = NL # rest \<Longrightarrow> lineComment_loop r cont = (cont, r)"
  by (subst lineComment_loop.simps) (simp add: Reader_peek_Cons)

lemma lineComment_loop_body:
  assumes "NL \<notin> set b" and "input r = b @ rest"
  shows "lineComment_loop r cont = lineComment_loop (r\<lparr>input := rest\<rparr>) (cont @ b)"
  using assms
proof (induction b arbitrary: r cont)
  case Nil
  then have "r\<lparr>input := rest\<rparr> = r" by (cases r) simp
  then show ?case by simp
next
  case (Cons c b)
  let ?r1 = "r\<lparr>input := b @ rest\<rparr>"
  have "lineComment_loop r cont = lineComment_loop ?r1 (cont @ [c])"
    using Cons.prems
    by (subst lineComment_loop.simps) (auto simp: Reader_peek_Cons Reader_next_Cons)
  also have "\<dots> = lineComment_loop (?r1\<lparr>input := rest\<rparr>) ((cont @ [c]) @ b)"
    using Cons.prems by (intro Cons.IH) simp_all
  finally show ?case by simp
qed

lemma blockComment_loop_stop:
  "input r = ''*/'' @ rest \<Longrightarrow> blockComment_loop r cont = (cont, r)"
  by (subst blockComment_loop.simps) (simp add: Reader_peek2_def)

lemma blockComment_loop_Nil: "input r = [] \<Longrightarrow> blockComment_loop r cont = (cont, r)"
  by (subst blockComment_loop.simps) (simp add: Reader_peek2_def)

lemma step_line_comment:
  assumes "NL \<notin> set b" and "input r = ''//'' @ b @ NL # rest"
  shows "transpile_step r (CHR ''/'') =
         Inr (r\<lparr>input := NL # rest, ctx := Context_add (ctx r) (''//'' @ b) (Some COMMENT)\<rparr>)"
proof -
  have "lineComment_loop r [] = lineComment_loop (r\<lparr>input := NL # rest\<rparr>) (''//'' @ b)"
    using lineComment_loop_body [of "''//'' @ b" r "NL # rest" "[]"] assms by simp
  then have "lineComment_loop r [] = (''//'' @ b, r\<lparr>input := NL # rest\<rparr>)"
    by (simp add: lineComment_loop_NL)
  then show ?thesis using assms(2)
    by (simp add: transpile_step_def quoteRegex_def Reader_COMMENT_def Reader_peek2_def
        lineComment_def add_def)
qed

lemma blockComment_loop_general:
  assumes "occurrences ''*/'' (b @ ''*'') = 0" and "input r = b @ ''*/'' @ rest"
  shows "blockComment_loop r cont =
         (cont @ b, r\<lparr>input := ''*/'' @ rest, line := line r + count_list b NL\<rparr>)"
  using assms
proof (induction b arbitrary: r cont)
  case Nil
  then have "r\<lparr>input := ''*/'' @ rest, line := line r + count_list [] NL\<rparr> = r"
    by (cases r) simp
  then show ?case using Nil by (simp add: blockComment_loop_stop)
next
  case (Cons c b)
  let ?r1 = "r\<lparr>input := b @ ''*/'' @ rest, line := (if c = NL then line r + 1 else line r)\<rparr>"
  from Cons.prems(1) have h: "take 2 (c # b @ ''*'') \<noteq> ''*/''"
    and t: "occurrences ''*/'' (b @ ''*'') = 0"
    by (auto split: if_splits)
  have "take 2 (c # b @ ''*/'' @ rest) \<noteq> ''*/''"
    using h by (cases b) auto
  then have "Reader_peek2 r \<noteq> ''*/''" "Reader_peek2 r \<noteq> []"
    using Cons.prems(2) by (simp_all add: Reader_peek2_def)
  then have "blockComment_loop r cont = blockComment_loop ?r1 (cont @ [c])"
    using Cons.prems(2)
    by (subst blockComment_loop.simps) (simp add: Reader_next_Cons js_string_def)
  also have "\<dots> = ((cont @ [c]) @ b,
       ?r1\<lparr>input := ''*/'' @ rest, line := line ?r1 + count_list b NL\<rparr>)"
    using t by (intro Cons.IH) simp_all
  finally show ?case by simp
qed

lemma step_string_body:
  assumes "quoteRegex q" and "string_body q b" and "input r = q # b @ q # rest"
  shows "transpile_step r q =
         Inr (r\<lparr>input := rest, line := line r + count_list b NL,
                ctx := Context_add (ctx r) (q # unescape b @ [q]) (Some STRING)\<rparr>)"
  using assms(1) Reader_STRING_body_closed [OF assms]
  by (simp add: transpile_step_quote add_def)

lemma step_block_comment_general:
  assumes "occurrences ''*/'' (b @ ''*'') = 0" and "input r = ''/*'' @ b @ ''*/'' @ rest"
  shows "transpile_step r (CHR ''/'') =
         Inr (r\<lparr>input := rest, line := line r + count_list b NL,
                ctx := Context_add (ctx r) (''/*'' @ b @ ''*/'') (Some COMMENT)\<rparr>)"
proof -
  let ?r2 = "r\<lparr>input := b @ ''*/'' @ rest\<rparr>"
  have "blockComment_loop ?r2 ''/*'' =
        (''/*'' @ b, ?r2\<lparr>input := ''*/'' @ rest, line := line ?r2 + count_list b NL\<rparr>)"
    using assms(1) by (intro blockComment_loop_general) simp_all
  then show ?thesis using assms(2)
    by (simp add: transpile_step_def quoteRegex_def Reader_COMMENT_def Reader_peek2_def
        blockComment_def Reader_next_Cons add_def js_string_def)
qed

lemma step_line_comment_eof:
  assumes "NL \<notin> set b" and "input r = ''//'' @ b"
  shows "transpile_step r (CHR ''/'') =
         Inr (r\<lparr>input := [], ctx := Context_add (ctx r) (''//'' @ b) (Some COMMENT)\<rparr>)"
proof -
  have "lineComment_loop r [] = lineComment_loop (r\<lparr>input := []\<rparr>) (''//'' @ b)"
    using lineComment_loop_body [of "''//'' @ b" r "[]" "[]"] assms by simp
  then have "lineComment_loop r [] = (''//'' @ b, r\<lparr>input := []\<rparr>)"
    by (simp add: lineComment_loop_Nil)
  then show ?thesis using assms(2)
    by (simp add: transpile_step_def quoteRegex_def Reader_COMMENT_def Reader_peek2_def
        lineComment_def add_def)
qed

lemma js_add_string:
  "kind c = JsContext \<Longrightarrow> str \<noteq> ''['' \<Longrightarrow>
   Context_add c str (Some STRING) = c\<lparr>content := content c @ str\<rparr>"
  by (simp add: Context_add_def add_content_simp)

lemma child_add_comment: "kind c \<noteq> RootContext \<Longrightarrow> Context_add c str (Some COMMENT) = c"
  by (simp add: Context_add_def)

lemma child_whitespace_after_plain:
  assumes "kind c \<noteq> RootContext" and "list_all plain (content c)"
  shows "Context_add c ws (Some WHITESPACE) = c\<lparr>content := content c @ '' ''\<rparr>"
proof -
  have "content c = [] \<or> last (content c) \<noteq> CHR '' ''"
  proof (cases "content c = []")
    case False
    with assms(2) have "plain (last (content c))" by (simp add: list_all_iff)
    then show ?thesis by (auto simp: plain_def whitespaceRegex_def)
  qed simp
  then show ?thesis using assms(1)
    by (simp add: Context_add_def ChildContext_WHITESPACE_def add_content_simp)
qed

lemma host_expression_run:
  assumes t1: "list_all plain t1" and t2: "list_all plain t2"
    and tok: "input r1 = tok @ t2 @ '']>>''"
        "\<And>c. kind c = JsContext \<Longrightarrow> ignoreCount c = 0 \<Longrightarrow> content c = t1 \<Longrightarrow>
           \<exists>ln. transpile_loop (r1\<lparr>ctx := c\<rparr>) =
                 transpile_loop (r1\<lparr>input := t2 @ '']>>'', line := ln,
                                   ctx := c\<lparr>content := t1 @ out\<rparr>\<rparr>)"
    and r1: "filename r1 = fname" "line r1 = 1"
        "parents r1 = [new_Context HssContext 1, new_Context RootContext 1]"
  shows "transpile (Transpiler fname (''<<['' @ t1 @ tok @ t2 @ '']>>'')) =
         Inr (''sheath.css.evaluate('' @ [SQ, SQ] @ '' + sheath.css.jsExpr('' @ t1 @ out @ t2
              @ '') + '' @ [SQ, SQ] @ '')'')"
proof -
  let ?root = "new_Context RootContext 1"
  let ?hss = "new_Context HssContext 1"
  let ?ps = "[?hss, ?root]"
  let ?st = "\<lambda>inp ln cx ps. \<lparr>filename = fname, input = inp, line = ln, ctx = cx, parents = ps\<rparr>"
  let ?js = "\<lambda>s. \<lparr>kind = JsContext, content = s, startingLine = 1, ignoreCount = 0\<rparr>"
  let ?o = "SQ # '' + sheath.css.jsExpr('' @ t1 @ out @ t2 @ '') + '' @ [SQ]"
  have sq: "\<not> whitespaceRegex SQ" by (simp add: whitespaceRegex_def)
  have r1eq: "r1\<lparr>ctx := ?js t1\<rparr> = ?st (tok @ t2 @ '']>>'') 1 (?js t1) ?ps"
    using tok(1) r1 by (cases r1) simp
  have "transpile_loop (Transpiler fname (''<<['' @ t1 @ tok @ t2 @ '']>>'')) =
        transpile_loop (?st (''['' @ t1 @ tok @ t2 @ '']>>'') 1 ?hss [?root])"
    by (subst loop_open_hss [where xs = "''['' @ t1 @ tok @ t2 @ '']>>''"])
       (simp_all add: Transpiler_def new_Context_def)
  also have "\<dots> = transpile_loop (?st (t1 @ tok @ t2 @ '']>>'') 1 (?js []) ?ps)"
    by (subst loop_open_js [where xs = "t1 @ tok @ t2 @ '']>>''"])
       (simp_all add: new_Context_def)
  also have "\<dots> = transpile_loop (?st (tok @ t2 @ '']>>'') 1 (?js t1) ?ps)"
    by (subst plain_loop [OF t1, where rest = "tok @ t2 @ '']>>''"]) simp_all
  finally have a: "transpile_loop (Transpiler fname (''<<['' @ t1 @ tok @ t2 @ '']>>'')) =
        transpile_loop (r1\<lparr>ctx := ?js t1\<rparr>)"
    using r1eq by simp
  obtain ln where b: "transpile_loop (r1\<lparr>ctx := ?js t1\<rparr>) =
        transpile_loop (r1\<lparr>input := t2 @ '']>>'', line := ln, ctx := (?js t1)\<lparr>content := t1 @ out\<rparr>\<rparr>)"
    using tok(2) [of "?js t1"] by auto
  have r2eq: "r1\<lparr>input := t2 @ '']>>'', line := ln, ctx := (?js t1)\<lparr>content := t1 @ out\<rparr>\<rparr> =
        ?st (t2 @ '']>>'') ln (?js (t1 @ out)) ?ps"
    using r1 by (cases r1) simp
  have "transpile_loop (?st (t2 @ '']>>'') ln (?js (t1 @ out)) ?ps) =
        transpile_loop (?st '']>>'' ln (?js (t1 @ out @ t2)) ?ps)"
    by (subst plain_loop [OF t2, where rest = "'']>>''"]) simp_all
  also have "\<dots> = transpile_loop (?st ''>>'' ln (?hss\<lparr>content := ?o\<rparr>) [?root])"
    by (subst loop_close_js [where xs = "''>>''" and p = ?hss and ps = "[?root]"])
       (simp_all add: saveChildContent_def toString_def Context_add_def add_content_simp
          new_Context_def)
  also have "\<dots> = transpile_loop (?st [] ln
       (?root\<lparr>content := ''sheath.css.evaluate('' @ [SQ] @ ?o @ [SQ] @ '')''\<rparr>) [])"
    using trim_between_plain [of "[]" "[]" SQ SQ "'' + sheath.css.jsExpr('' @ t1 @ out @ t2 @ '') + ''"] sq
    by (subst loop_close_hss [where xs = "[]" and p = ?root and ps = "[]"])
       (simp_all add: saveChildContent_def toString_def Context_add_def add_content_simp
          new_Context_def)
  also have "\<dots> = Inr (?st [] ln
       (?root\<lparr>content := ''sheath.css.evaluate('' @ [SQ] @ ?o @ [SQ] @ '')''\<rparr>) [])"
    by (simp add: transpile_loop_Nil)
  finally show ?thesis using a b r2eq
    by (simp add: transpile_def toString_def new_Context_def)
qed

lemma host_expression_string_run:
  assumes "list_all plain t1" and "list_all plain t2" and "quoteRegex q" and "string_body q b"
  shows "transpile (Transpiler fname (''<<['' @ t1 @ (q # b @ [q]) @ t2 @ '']>>'')) =
         Inr (''sheath.css.evaluate('' @ [SQ, SQ] @ '' + sheath.css.jsExpr('' @ t1
              @ (q # unescape b @ [q]) @ t2 @ '') + '' @ [SQ, SQ] @ '')'')"
proof (rule host_expression_run [OF assms(1,2), where
      ?r1.0 = "\<lparr>filename = fname, input = (q # b @ [q]) @ t2 @ '']>>'', line = 1,
               ctx = new_Context JsContext 1,
               parents = [new_Context HssContext 1, new_Context RootContext 1]\<rparr>"])
  let ?r1 = "\<lparr>filename = fname, input = (q # b @ [q]) @ t2 @ '']>>'', line = 1,
               ctx = new_Context JsContext 1,
               parents = [new_Context HssContext 1, new_Context RootContext 1]\<rparr>"
  fix c :: Context
  assume c: "kind c = JsContext" "ignoreCount c = 0" "content c = t1"
  have "transpile_step (?r1\<lparr>ctx := c\<rparr>) q =
        Inr (?r1\<lparr>ctx := c\<rparr>\<lparr>input := t2 @ '']>>'', line := line (?r1\<lparr>ctx := c\<rparr>) + count_list b NL,
               ctx := Context_add (ctx (?r1\<lparr>ctx := c\<rparr>)) (q # unescape b @ [q]) (Some STRING)\<rparr>)"
    using assms(3,4) by (intro step_string_body) simp_all
  then have "transpile_loop (?r1\<lparr>ctx := c\<rparr>) =
        transpile_loop (?r1\<lparr>input := t2 @ '']>>'', line := 1 + count_list b NL,
            ctx := c\<lparr>content := t1 @ (q # unescape b @ [q])\<rparr>\<rparr>)"
    using c by (subst transpile_loop_step [of _ q]) (simp_all add: Reader_peek_def js_add_string)
  then show "\<exists>ln. transpile_loop (?r1\<lparr>ctx := c\<rparr>) =
        transpile_loop (?r1\<lparr>input := t2 @ '']>>'', line := ln,
            ctx := c\<lparr>content := t1 @ (q # unescape b @ [q])\<rparr>\<rparr>)"
    by blast
qed simp_all

lemma host_expression_block_comment_run:
  assumes "list_all plain t1" and "list_all plain t2" and "occurrences ''*/'' (b @ ''*'') = 0"
  shows "transpile (Transpiler fname (''<<['' @ t1 @ (''/*'' @ b @ ''*/'') @ t2 @ '']>>'')) =
         Inr (''sheath.css.evaluate('' @ [SQ, SQ] @ '' + sheath.css.jsExpr('' @ t1 @ [] @ t2
              @ '') + '' @ [SQ, SQ] @ '')'')"
proof (rule host_expression_run [OF assms(1,2), where
      ?r1.0 = "\<lparr>filename = fname, input = (''/*'' @ b @ ''*/'') @ t2 @ '']>>'', line = 1,
               ctx = new_Context JsContext 1,
               parents = [new_Context HssContext 1, new_Context RootContext 1]\<rparr>"])
  let ?r1 = "\<lparr>filename = fname, input = (''/*'' @ b @ ''*/'') @ t2 @ '']>>'', line = 1,
               ctx = new_Context JsContext 1,
               parents = [new_Context HssContext 1, new_Context RootContext 1]\<rparr>"
  fix c :: Context
  assume c: "kind c = JsContext" "ignoreCount c = 0" "content c = t1"
  have "transpile_step (?r1\<lparr>ctx := c\<rparr>) (CHR ''/'') =
        Inr (?r1\<lparr>ctx := c\<rparr>\<lparr>input := t2 @ '']>>'', line := line (?r1\<lparr>ctx := c\<rparr>) + count_list b NL,
               ctx := Context_add (ctx (?r1\<lparr>ctx := c\<rparr>)) (''/*'' @ b @ ''*/'') (Some COMMENT)\<rparr>)"
    using assms(3) by (intro step_block_comment_general) simp_all
  then have "transpile_loop (?r1\<lparr>ctx := c\<rparr>) =
        transpile_loop (?r1\<lparr>input := t2 @ '']>>'', line := 1 + count_list b NL,
            ctx := c\<lparr>content := t1 @ []\<rparr>\<rparr>)"
    using c by (subst transpile_loop_step [of _ "CHR ''/''"])
      (simp_all add: Reader_peek_def child_add_comment)
  then show "\<exists>ln. transpile_loop (?r1\<lparr>ctx := c\<rparr>) =
        transpile_loop (?r1\<lparr>input := t2 @ '']>>'', line := ln, ctx := c\<lparr>content := t1 @ []\<rparr>\<rparr>)"
    by blast
qed simp_all

lemma host_expression_line_comment_run:
  assumes "list_all plain t1" and "list_all plain t2" and "NL \<notin> set b"
  shows "transpile (Transpiler fname (''<<['' @ t1 @ (''//'' @ b @ [NL]) @ t2 @ '']>>'')) =
         Inr (''sheath.css.evaluate('' @ [SQ, SQ] @ '' + sheath.css.jsExpr('' @ t1 @ '' '' @ t2
              @ '') + '' @ [SQ, SQ] @ '')'')"
proof (rule host_expression_run [OF assms(1,2), where
      ?r1.0 = "\<lparr>filename = fname, input = (''//'' @ b @ [NL]) @ t2 @ '']>>'', line = 1,
               ctx = new_Context JsContext 1,
               parents = [new_Context HssContext 1, new_Context RootContext 1]\<rparr>"])
  let ?r1 = "\<lparr>filename = fname, input = (''//'' @ b @ [NL]) @ t2 @ '']>>'', line = 1,
               ctx = new_Context JsContext 1,
               parents = [new_Context HssContext 1, new_Context RootContext 1]\<rparr>"
  fix c :: Context
  assume c: "kind c = JsContext" "ignoreCount c = 0" "content c = t1"
  let ?r2 = "?r1\<lparr>input := NL # t2 @ '']>>'', ctx := c\<rparr>"
  have "transpile_step (?r1\<lparr>ctx := c\<rparr>) (CHR ''/'') =
        Inr (?r1\<lparr>ctx := c\<rparr>\<lparr>input := NL # t2 @ '']>>'',
               ctx := Context_add (ctx (?r1\<lparr>ctx := c\<rparr>)) (''//'' @ b) (Some COMMENT)\<rparr>)"
    using assms(3) by (intro step_line_comment) simp_all
  then have "transpile_loop (?r1\<lparr>ctx := c\<rparr>) = transpile_loop ?r2"
    using c by (subst transpile_loop_step [of _ "CHR ''/''"])
      (simp_all add: Reader_peek_def child_add_comment)
  also have "transpile_step ?r2 NL =
        Inr (?r2\<lparr>input := t2 @ '']>>'', line := (if NL = NL then line ?r2 + 1 else line ?r2),
               ctx := Context_add (ctx ?r2) [NL] (Some WHITESPACE)\<rparr>)"
    by (intro step_whitespace) (simp_all add: whitespaceRegex_NL)
  then have "transpile_loop ?r2 =
        transpile_loop (?r1\<lparr>input := t2 @ '']>>'', line := 2, ctx := c\<lparr>content := t1 @ '' ''\<rparr>\<rparr>)"
    using c assms(1) child_whitespace_after_plain [of c "[NL]"]
    by (subst transpile_loop_step [of _ NL]) (simp_all add: Reader_peek_def)
  finally show "\<exists>ln. transpile_loop (?r1\<lparr>ctx := c\<rparr>) =
        transpile_loop (?r1\<lparr>input := t2 @ '']>>'', line := ln, ctx := c\<lparr>content := t1 @ '' ''\<rparr>\<rparr>)"
    by blast
qed simp_all

section \<open>The root context passes text through\<close>

lemma occurrences_suffix: "occurrences pat (a @ s) = 0 \<Longrightarrow> occurrences pat s = 0"
  by (induction a) simp_all

lemma root_add:
  "kind c = RootContext \<Longrightarrow> Context_add c tok ty = c\<lparr>content := content c @ tok\<rparr>"
  by (cases ty; cases "the ty")
     (simp_all add: Context_add_def add_content_def beforeAdd_def)

lemma occurrences_zero_head:
  "occurrences pat (c # cs) = 0 \<Longrightarrow> take (length pat) (c # cs) \<noteq> pat"
  by (auto split: if_splits)

lemma string_end_Some:
  "string_end q cs = Some rest \<Longrightarrow>
   \<exists>b. cs = b @ q # rest \<and> string_body q b \<and> unescape b = b"
proof (induction cs)
  case Nil
  then show ?case by simp
next
  case (Cons c cs)
  show ?case
  proof (cases "c = q")
    case True
    with Cons.prems have "c # cs = [] @ q # rest \<and> string_body q [] \<and> unescape [] = []"
      by simp
    then show ?thesis by blast
  next
    case False
    with Cons.prems have c: "c \<noteq> BSL" "q = BQ \<or> c \<noteq> NL" and e: "string_end q cs = Some rest"
      by (auto split: if_splits)
    from Cons.IH [OF e] obtain b where b: "cs = b @ q # rest" "string_body q b" "unescape b = b"
      by blast
    have "string_body q (c # b) \<and> unescape (c # b) = c # b"
      using False c b(2,3) by (cases b) auto
    with b(1) have "c # cs = (c # b) @ q # rest \<and> string_body q (c # b) \<and> unescape (c # b) = c # b"
      by simp
    then show ?thesis by blast
  qed
qed

lemma block_end_Some:
  "block_end xs = Some rest \<Longrightarrow>
   \<exists>b. xs = b @ ''*/'' @ rest \<and> occurrences ''*/'' (b @ ''*'') = 0"
proof (induction xs)
  case Nil
  then show ?case by simp
next
  case (Cons c cs)
  show ?case
  proof (cases "take 2 (c # cs) = ''*/''")
    case True
    with Cons.prems have "rest = tl cs" by simp
    with True have "c # cs = [] @ ''*/'' @ rest \<and> occurrences ''*/'' ([] @ ''*'') = 0"
      by (cases cs) auto
    then show ?thesis by blast
  next
    case False
    with Cons.prems have "block_end cs = Some rest" by (auto split: if_splits)
    from Cons.IH [OF this] obtain b where b: "cs = b @ ''*/'' @ rest"
      "occurrences ''*/'' (b @ ''*'') = 0" by blast
    have "take 2 (c # b @ ''*'') \<noteq> ''*/''"
      using False b(1) by (cases b) auto
    with b(2) have "occurrences ''*/'' ((c # b) @ ''*'') = 0" by simp
    with b(1) have "c # cs = (c # b) @ ''*/'' @ rest \<and> occurrences ''*/'' ((c # b) @ ''*'') = 0"
      by simp
    then show ?thesis by blast
  qed
qed

lemma lineComment_loop_exact:
  assumes "input r = xs"
  shows "lineComment_loop r cont =
         (cont @ takeWhile (\<lambda>x. x \<noteq> NL) xs, r\<lparr>input := dropWhile (\<lambda>x. x \<noteq> NL) xs\<rparr>)"
  using assms
proof (induction xs arbitrary: r cont)
  case Nil
  then have "r\<lparr>input := []\<rparr> = r" by (cases r) simp
  with Nil show ?case by (simp add: lineComment_loop_Nil)
next
  case (Cons c cs)
  show ?case
  proof (cases "c = NL")
    case True
    with Cons.prems have "r\<lparr>input := NL # cs\<rparr> = r" by (cases r) simp
    with True Cons.prems show ?thesis by (simp add: lineComment_loop_NL)
  next
    case False
    let ?r1 = "r\<lparr>input := cs\<rparr>"
    have "lineComment_loop r cont = lineComment_loop ?r1 (cont @ [c])"
      using Cons.prems False
      by (subst lineComment_loop.simps) (simp add: Reader_peek_Cons Reader_next_Cons)
    also have "\<dots> = ((cont @ [c]) @ takeWhile (\<lambda>x. x \<noteq> NL) cs,
                       ?r1\<lparr>input := dropWhile (\<lambda>x. x \<noteq> NL) cs\<rparr>)"
      by (intro Cons.IH) simp
    finally show ?thesis using False by simp
  qed
qed

lemma root_step_line_comment:
  assumes "kind (ctx r) = RootContext" and "input r = c # cs" and "take 2 (c # cs) = ''//''"
  shows "transpile_step r c =
         Inr (r\<lparr>input := dropWhile (\<lambda>x. x \<noteq> NL) cs,
                ctx := (ctx r)\<lparr>content := content (ctx r) @ takeWhile (\<lambda>x. x \<noteq> NL) (c # cs)\<rparr>\<rparr>)"
proof -
  from assms(3) have c: "c = CHR ''/''" by (cases cs) auto
  have "lineComment_loop r [] =
        ([] @ takeWhile (\<lambda>x. x \<noteq> NL) (c # cs), r\<lparr>input := dropWhile (\<lambda>x. x \<noteq> NL) (c # cs)\<rparr>)"
    using assms(2) by (intro lineComment_loop_exact) simp
  then show ?thesis using assms c
    by (simp add: transpile_step_def quoteRegex_def Reader_COMMENT_def Reader_peek2_def
        lineComment_def add_def root_add)
qed

lemma root_step_char:
  assumes root: "kind (ctx r) = RootContext" and inp: "input r = x # cs"
    and nq: "\<not> quoteRegex x"
    and p: "take 2 (x # cs) \<noteq> ''//''" "take 2 (x # cs) \<noteq> ''/*''" "take 2 (x # cs) \<noteq> ''<<''"
  shows "transpile_step r x =
         Inr (r\<lparr>input := cs, line := (if x = NL then line r + 1 else line r),
                ctx := (ctx r)\<lparr>content := content (ctx r) @ [x]\<rparr>\<rparr>)"
proof -
  have p2: "Reader_peek2 r \<noteq> ''//''" "Reader_peek2 r \<noteq> ''/*''" "Reader_peek2 r \<noteq> ''<<''"
    using p inp by (simp_all add: Reader_peek2_def)
  consider (com) "x = CHR ''/''" | (ws) "x \<noteq> CHR ''/''" "whitespaceRegex x"
    | (other) "x \<noteq> CHR ''/''" "\<not> whitespaceRegex x" by blast
  then show ?thesis
  proof cases
    case ws
    then show ?thesis using step_whitespace [OF ws(2) inp] root by (simp add: root_add)
  next
    case other
    have "childContextStart r = (False, r)"
      using root p2 by (simp add: childContextStart_def)
    moreover have "contextEnd r = (False, r)" using root by (simp add: contextEnd_def)
    ultimately show ?thesis
      using nq other root inp
      by (simp add: transpile_step_def Reader_next_Cons add_def root_add js_string_def)
  next
    case com
    then show ?thesis using nq p2 root inp
      by (simp add: transpile_step_def Reader_COMMENT_def Reader_next_Cons add_def root_add
          js_string_def)
  qed
qed

lemma root_lexically_closed:
  assumes "kind (ctx r) = RootContext" and "input r = xs" and "occurrences ''<<'' xs = 0"
    and "lexically_closed xs"
  shows "\<exists>r'. transpile_loop r = Inr r' \<and> kind (ctx r') = RootContext
              \<and> content (ctx r') = content (ctx r) @ xs"
  using assms
proof (induction xs arbitrary: r rule: lexically_closed.induct)
  case 1
  then show ?case by (simp add: transpile_loop_Nil)
next
  case (2 c cs)
  have pk: "Reader_peek r = Some c" using "2.prems"(2) by (simp add: Reader_peek_Cons)
  have fin: ?case
    if s: "transpile_step r c = Inr r1" and k: "kind (ctx r1) = RootContext"
      and c1: "content (ctx r1) = content (ctx r) @ tok" and i: "c # cs = tok @ input r1"
      and ih: "\<And>r. kind (ctx r) = RootContext \<Longrightarrow> input r = input r1 \<Longrightarrow>
                  occurrences ''<<'' (input r1) = 0 \<Longrightarrow>
                  \<exists>r'. transpile_loop r = Inr r' \<and> kind (ctx r') = RootContext
                       \<and> content (ctx r') = content (ctx r) @ input r1"
    for r1 tok
  proof -
    have o: "occurrences ''<<'' (input r1) = 0"
      using "2.prems"(3) occurrences_suffix [of "''<<''" tok "input r1"] i by simp
    from ih [OF k refl o] obtain r' where "transpile_loop r1 = Inr r'"
      "kind (ctx r') = RootContext" "content (ctx r') = content (ctx r1) @ input r1" by blast
    then have "transpile_loop r = Inr r' \<and> kind (ctx r') = RootContext
               \<and> content (ctx r') = content (ctx r) @ c # cs"
      using transpile_loop_step [OF pk s] c1 i by simp
    then show ?thesis by blast
  qed
  consider (str) "quoteRegex c"
    | (line) "\<not> quoteRegex c" "take 2 (c # cs) = ''//''"
    | (block) "\<not> quoteRegex c" "take 2 (c # cs) \<noteq> ''//''" "take 2 (c # cs) = ''/*''"
    | (char) "\<not> quoteRegex c" "take 2 (c # cs) \<noteq> ''//''" "take 2 (c # cs) \<noteq> ''/*''"
    by blast
  then show ?case
  proof cases
    case str
    with "2.prems"(4) obtain rest where e: "string_end c cs = Some rest"
      and l: "lexically_closed rest" by (auto split: option.splits)
    from string_end_Some [OF e] obtain b where b: "cs = b @ c # rest" "string_body c b"
      "unescape b = b" by blast
    let ?r1 = "r\<lparr>input := rest, line := line r + count_list b NL,
                ctx := Context_add (ctx r) (c # unescape b @ [c]) (Some STRING)\<rparr>"
    have s: "transpile_step r c = Inr ?r1"
      using str b "2.prems"(2) by (intro step_string_body) simp_all
    show ?thesis
    proof (rule fin [OF s, where tok = "c # b @ [c]"])
      show "kind (ctx ?r1) = RootContext" using "2.prems"(1) by (simp add: root_add)
      show "content (ctx ?r1) = content (ctx r) @ c # b @ [c]"
        using "2.prems"(1) b(3) by (simp add: root_add)
      show "c # cs = (c # b @ [c]) @ input ?r1" using b(1) by simp
      fix r' :: reader
      assume "kind (ctx r') = RootContext" "input r' = input ?r1"
        "occurrences ''<<'' (input ?r1) = 0"
      then show "\<exists>r''. transpile_loop r' = Inr r'' \<and> kind (ctx r'') = RootContext
                       \<and> content (ctx r'') = content (ctx r') @ input ?r1"
        using "2.IH"(1) [OF str e, of r'] l by simp
    qed
  next
    case line
    let ?r1 = "r\<lparr>input := dropWhile (\<lambda>x. x \<noteq> NL) cs,
                ctx := (ctx r)\<lparr>content := content (ctx r) @ takeWhile (\<lambda>x. x \<noteq> NL) (c # cs)\<rparr>\<rparr>"
    from line(2) have c: "c \<noteq> NL" by (cases cs) auto
    have s: "transpile_step r c = Inr ?r1"
      using "2.prems"(1,2) line(2) by (rule root_step_line_comment)
    show ?thesis
    proof (rule fin [OF s, where tok = "takeWhile (\<lambda>x. x \<noteq> NL) (c # cs)"])
      show "kind (ctx ?r1) = RootContext" using "2.prems"(1) by simp
      show "content (ctx ?r1) = content (ctx r) @ takeWhile (\<lambda>x. x \<noteq> NL) (c # cs)" by simp
      show "c # cs = takeWhile (\<lambda>x. x \<noteq> NL) (c # cs) @ input ?r1" using c by simp
      fix r' :: reader
      assume "kind (ctx r') = RootContext" "input r' = input ?r1"
        "occurrences ''<<'' (input ?r1) = 0"
      then show "\<exists>r''. transpile_loop r' = Inr r'' \<and> kind (ctx r'') = RootContext
                       \<and> content (ctx r'') = content (ctx r') @ input ?r1"
        using "2.IH"(2) [OF line(1) line(2), of r'] "2.prems"(4) line by simp
    qed
  next
    case block
    with "2.prems"(4) obtain rest where e: "block_end (tl cs) = Some rest"
      and l: "lexically_closed rest" by (auto split: option.splits)
    from block(3) obtain cs' where cs: "c = CHR ''/''" "cs = CHR ''*'' # cs'"
      by (cases cs) auto
    from block_end_Some [OF e] cs obtain b where b: "cs' = b @ ''*/'' @ rest"
      "occurrences ''*/'' (b @ ''*'') = 0" by auto
    let ?r1 = "r\<lparr>input := rest, line := line r + count_list b NL,
                ctx := Context_add (ctx r) (''/*'' @ b @ ''*/'') (Some COMMENT)\<rparr>"
    have s: "transpile_step r c = Inr ?r1"
      unfolding cs(1) using b cs "2.prems"(2)
      by (intro step_block_comment_general) simp_all
    show ?thesis
    proof (rule fin [OF s, where tok = "''/*'' @ b @ ''*/''"])
      show "kind (ctx ?r1) = RootContext" using "2.prems"(1) by (simp add: root_add)
      show "content (ctx ?r1) = content (ctx r) @ ''/*'' @ b @ ''*/''"
        using "2.prems"(1) by (simp add: root_add)
      show "c # cs = (''/*'' @ b @ ''*/'') @ input ?r1" using b(1) cs by simp
      fix r' :: reader
      assume "kind (ctx r') = RootContext" "input r' = input ?r1"
        "occurrences ''<<'' (input ?r1) = 0"
      then show "\<exists>r''. transpile_loop r' = Inr r'' \<and> kind (ctx r'') = RootContext
                       \<and> content (ctx r'') = content (ctx r') @ input ?r1"
        using "2.IH"(3) [OF block(1) block(2) block(3) e, of r'] l by simp
    qed
  next
    case char
    let ?r1 = "r\<lparr>input := cs, line := (if c = NL then line r + 1 else line r),
                ctx := (ctx r)\<lparr>content := content (ctx r) @ [c]\<rparr>\<rparr>"
    have "take 2 (c # cs) \<noteq> ''<<''"
      using occurrences_zero_head [of "''<<''" c cs] "2.prems"(3) by simp
    then have s: "transpile_step r c = Inr ?r1"
      using "2.prems"(1,2) char by (intro root_step_char) simp_all
    show ?thesis
    proof (rule fin [OF s, where tok = "[c]"])
      show "kind (ctx ?r1) = RootContext" using "2.prems"(1) by simp
      show "content (ctx ?r1) = content (ctx r) @ [c]" by simp
      show "c # cs = [c] @ input ?r1" by simp
      fix r' :: reader
      assume "kind (ctx r') = RootContext" "input r' = input ?r1"
        "occurrences ''<<'' (input ?r1) = 0"
      then show "\<exists>r''. transpile_loop r' = Inr r'' \<and> kind (ctx r'') = RootContext
                       \<and> content (ctx r'') = content (ctx r') @ input ?r1"
        using "2.IH"(4) [OF char(1) char(2) char(3), of r'] "2.prems"(4) char by simp
    qed
  qed
qed

section \<open>Properties of the string scanner\<close>

text \<open>
  Claim C2, as the code has it. The claim says that a backslash met inside a string and the
  one character after it are both copied into the STRING token. The escape branch of
  \<^verbatim>\<open>Reader.STRING\<close> drops the backslash (``strip the escape character'') and copies
  only the character after it, whatever it is and without interpreting it: the loop goes
  on with that one character appended, and a string with one escape in it gives the token
  without the backslash. The character after the backslash never ends the string, and a
  newline there still counts as a line.
\<close>

theorem string_escape_drops_backslash:
  "(type \<noteq> BSL \<and> input r = BSL # c # rest \<longrightarrow>
      STRING_loop r type str =
      STRING_loop (r\<lparr>input := rest, line := (if c = NL then line r + 1 else line r)\<rparr>)
        type (str @ [c]))
   \<and> (quoteRegex q \<and> list_all (ordinary q) b1 \<and> list_all (ordinary q) b2
        \<and> input r' = q # b1 @ BSL # c' # b2 @ q # rest' \<longrightarrow>
      Reader_STRING r' =
      Inr (add (r'\<lparr>input := rest', line := (if c' = NL then line r' + 1 else line r')\<rparr>)
             (q # b1 @ c' # b2 @ [q]) (Some STRING)))"
  using STRING_loop_escape [of r c rest type str] Reader_STRING_escape [of q b1 b2 r' c' rest']
  by blast

theorem string_escape_drops_backslash_witness:
  "STRING_loop (Transpiler ''a.hss'' [BSL, CHR ''n'', DQ]) DQ [DQ] =
   STRING_loop (Transpiler ''a.hss'' [DQ]) DQ [DQ, CHR ''n'']
   \<and> Reader_STRING (Transpiler ''a.hss'' ([DQ] @ ''a'' @ [BSL, DQ] @ ''b'' @ [DQ])) =
     Inr \<lparr>filename = ''a.hss'', input = [], line = 1,
          ctx = \<lparr>kind = RootContext, content = [DQ] @ ''a'' @ [DQ] @ ''b'' @ [DQ],
                 startingLine = 1, ignoreCount = 0\<rparr>,
          parents = []\<rparr>"
  using string_escape_drops_backslash [of DQ "Transpiler ''a.hss'' [BSL, CHR ''n'', DQ]"
      "CHR ''n''" "[DQ]" "[DQ]" DQ "''a''" "''b''"
      "Transpiler ''a.hss'' ([DQ] @ ''a'' @ [BSL, DQ] @ ''b'' @ [DQ])" DQ "[]"]
  by (simp add: Transpiler_def quoteRegex_def ordinary_def add_def Context_add_def
      add_content_def beforeAdd_def new_Context_def)

text \<open>
  The claim as stated fails on the four characters \<^verbatim>\<open>"\n"\<close> (quote, backslash, n,
  quote): the token handed to the root context is \<^verbatim>\<open>"n"\<close>, without the backslash.
\<close>

theorem string_escape_counterexample:
  "Reader_STRING (Transpiler ''a.hss'' [DQ, BSL, CHR ''n'', DQ]) =
     Inr \<lparr>filename = ''a.hss'', input = [], line = 1,
          ctx = \<lparr>kind = RootContext, content = [DQ, CHR ''n'', DQ],
                 startingLine = 1, ignoreCount = 0\<rparr>,
          parents = []\<rparr>
   \<and> [DQ, CHR ''n'', DQ] \<noteq> [DQ, BSL, CHR ''n'', DQ]"
  by code_simp

text \<open>
  Claim C9. In a single- or double-quoted string a backslash followed by a newline raises
  no error: the escape branch takes both characters before the newline case is looked at,
  the newline goes into the token and the line counter goes up by one. The same string
  with the newline not escaped raises the multi-line error.
\<close>

theorem escaped_newline_accepted:
  "(q = SQ \<or> q = DQ) \<and> list_all (ordinary q) b1 \<and> list_all (ordinary q) b2 \<longrightarrow>
     (input r = BSL # NL # rest \<longrightarrow>
        STRING_loop r q str = STRING_loop (r\<lparr>input := rest, line := line r + 1\<rparr>) q (str @ [NL]))
   \<and> (input r = q # b1 @ BSL # NL # b2 @ q # rest \<longrightarrow>
        Reader_STRING r =
        Inr (add (r\<lparr>input := rest, line := line r + 1\<rparr>) (q # b1 @ NL # b2 @ [q]) (Some STRING)))
   \<and> (input r = q # b1 @ NL # b2 @ q # rest \<longrightarrow>
        Reader_STRING r = Inl (Reader_error r ''Unexpected multi-line string''))"
proof (intro impI conjI)
  assume h: "(q = SQ \<or> q = DQ) \<and> list_all (ordinary q) b1 \<and> list_all (ordinary q) b2"
  then have q: "quoteRegex q" "q \<noteq> BQ" "q \<noteq> BSL" by (auto simp: quoteRegex_def)
  {
    assume "input r = BSL # NL # rest"
    from STRING_loop_escape [OF this q(3), of str]
    show "STRING_loop r q str = STRING_loop (r\<lparr>input := rest, line := line r + 1\<rparr>) q (str @ [NL])"
      by simp
  }
  {
    assume "input r = q # b1 @ BSL # NL # b2 @ q # rest"
    from Reader_STRING_escape [OF q(1) _ _ this] h
    show "Reader_STRING r =
        Inr (add (r\<lparr>input := rest, line := line r + 1\<rparr>) (q # b1 @ NL # b2 @ [q]) (Some STRING))"
      by simp
  }
  {
    assume "input r = q # b1 @ NL # b2 @ q # rest"
    from Reader_STRING_newline_error [OF q(1,2) _ this] h
    show "Reader_STRING r = Inl (Reader_error r ''Unexpected multi-line string'')"
      by simp
  }
qed

theorem escaped_newline_accepted_witness:
  "STRING_loop (Transpiler ''a.hss'' ([BSL, NL] @ ''b'' @ [DQ])) DQ ([DQ] @ ''a'') =
   STRING_loop ((Transpiler ''a.hss'' (''b'' @ [DQ]))\<lparr>line := 2\<rparr>) DQ ([DQ] @ ''a'' @ [NL])
   \<and> Reader_STRING (Transpiler ''a.hss'' ([DQ] @ ''a'' @ [BSL, NL] @ ''b'' @ [DQ])) =
     Inr \<lparr>filename = ''a.hss'', input = [], line = 2,
          ctx = \<lparr>kind = RootContext, content = [DQ] @ ''a'' @ [NL] @ ''b'' @ [DQ],
                 startingLine = 1, ignoreCount = 0\<rparr>,
          parents = []\<rparr>
   \<and> Reader_STRING (Transpiler ''a.hss'' ([DQ] @ ''a'' @ [NL] @ ''b'' @ [DQ])) =
     Inl (SyntaxError (''Hss Error in a.hss on line 1'' @ [NL] @ ''Unexpected multi-line string''))"
  using escaped_newline_accepted [of DQ "''a''" "''b''"
      "Transpiler ''a.hss'' ([BSL, NL] @ ''b'' @ [DQ])" "''b'' @ [DQ]" "[DQ] @ ''a''"]
    escaped_newline_accepted [of DQ "''a''" "''b''"
      "Transpiler ''a.hss'' ([DQ] @ ''a'' @ [BSL, NL] @ ''b'' @ [DQ])" "[]"]
    escaped_newline_accepted [of DQ "''a''" "''b''"
      "Transpiler ''a.hss'' ([DQ] @ ''a'' @ [NL] @ ''b'' @ [DQ])" "[]"]
  by (simp add: Transpiler_def ordinary_def add_def Context_add_def
      add_content_def beforeAdd_def new_Context_def Reader_error_def show_nat.simps
      digit_char_def numeral_2_eq_2)

text \<open>
  Claim C7. Wherever the loop of \<^verbatim>\<open>Reader.STRING\<close> stands, a newline that it meets
  there (one that no escape has taken) is an error (``Unexpected multi-line string'') when
  the delimiter is a single or double quote, and is copied when it is a backtick; and at
  the end of the input the loop stops. For whole tokens, whatever escapes the text before
  has: a raw newline in a single- or double-quoted string is the multi-line error; a
  string that is closed gives its token, newlines included for a backtick; a string that
  the input ends in, also after a backslash, is the error ``Unexpected end of file'', as
  for the input \<^verbatim>\<open>"abc\<close>. Every text after an opening quote is of one of these
  shapes. An error raised by \<^verbatim>\<open>Reader.STRING\<close> at any pass of the loop of
  \<^verbatim>\<open>transpile\<close> is the result of the whole call.
\<close>

theorem string_newline_and_end_of_file:
  "((type = SQ \<or> type = DQ) \<and> input r = NL # rest \<longrightarrow>
      STRING_loop r type str = Inl (Reader_error r ''Unexpected multi-line string''))
   \<and> (input r = NL # rest \<longrightarrow>
      STRING_loop r BQ str = STRING_loop (r\<lparr>input := rest, line := line r + 1\<rparr>) BQ (str @ [NL]))
   \<and> (input r = [] \<longrightarrow> STRING_loop r type str = Inr (str, r))
   \<and> ((q1 = SQ \<or> q1 = DQ) \<and> string_body q1 b1 \<and> input r1 = q1 # b1 @ NL # rest1 \<longrightarrow>
      Reader_STRING r1 =
      Inl (Reader_error (r1\<lparr>line := line r1 + count_list b1 NL\<rparr>) ''Unexpected multi-line string''))
   \<and> (quoteRegex q2 \<and> string_body q2 b2 \<and> input r2 = q2 # b2 @ q2 # rest2 \<longrightarrow>
      Reader_STRING r2 =
      Inr (add (r2\<lparr>input := rest2, line := line r2 + count_list b2 NL\<rparr>)
             (q2 # unescape b2 @ [q2]) (Some STRING)))
   \<and> (quoteRegex q3 \<and> string_body q3 b3 \<and> (input r3 = q3 # b3 \<or> input r3 = q3 # b3 @ [BSL]) \<longrightarrow>
      Reader_STRING r3 =
      Inl (Reader_error (r3\<lparr>line := line r3 + count_list b3 NL\<rparr>) ''Unexpected end of file''))
   \<and> (quoteRegex q4 \<longrightarrow>
      (\<exists>b. string_body q4 b
           \<and> (body = b \<or> body = b @ [BSL] \<or> (\<exists>rest. body = b @ q4 # rest)
              \<or> (q4 \<noteq> BQ \<and> (\<exists>rest. body = b @ NL # rest)))))
   \<and> (loop_steps n r0 = Inr r5 \<and> Reader_peek r5 = Some q5 \<and> quoteRegex q5
        \<and> Reader_STRING r5 = Inl e \<longrightarrow>
      transpile r0 = Inl e)
   \<and> transpile (Transpiler fname ([DQ] @ ''abc'')) =
       Inl (SyntaxError (''Hss Error in '' @ fname @ '' on line 1'' @ [NL]
                         @ ''Unexpected end of file''))"
proof (intro conjI impI)
  assume "(type = SQ \<or> type = DQ) \<and> input r = NL # rest"
  then show "STRING_loop r type str = Inl (Reader_error r ''Unexpected multi-line string'')"
    by (intro STRING_loop_newline_error [of r rest]) auto
next
  assume "input r = NL # rest"
  then show "STRING_loop r BQ str =
             STRING_loop (r\<lparr>input := rest, line := line r + 1\<rparr>) BQ (str @ [NL])"
    by (rule STRING_loop_newline_backtick)
next
  assume "input r = []"
  then show "STRING_loop r type str = Inr (str, r)" by (rule STRING_loop_Nil)
next
  assume "(q1 = SQ \<or> q1 = DQ) \<and> string_body q1 b1 \<and> input r1 = q1 # b1 @ NL # rest1"
  then show "Reader_STRING r1 =
      Inl (Reader_error (r1\<lparr>line := line r1 + count_list b1 NL\<rparr>) ''Unexpected multi-line string'')"
    using Reader_STRING_body_newline [of q1 b1 r1 rest1] by blast
next
  assume "quoteRegex q2 \<and> string_body q2 b2 \<and> input r2 = q2 # b2 @ q2 # rest2"
  then show "Reader_STRING r2 =
      Inr (add (r2\<lparr>input := rest2, line := line r2 + count_list b2 NL\<rparr>)
             (q2 # unescape b2 @ [q2]) (Some STRING))"
    using Reader_STRING_body_closed [of q2 b2 r2 rest2] by blast
next
  assume "quoteRegex q3 \<and> string_body q3 b3 \<and> (input r3 = q3 # b3 \<or> input r3 = q3 # b3 @ [BSL])"
  then show "Reader_STRING r3 =
      Inl (Reader_error (r3\<lparr>line := line r3 + count_list b3 NL\<rparr>) ''Unexpected end of file'')"
    using Reader_STRING_body_eof [of q3 b3 r3] by blast
next
  assume "quoteRegex q4"
  then have "q4 \<noteq> BSL" by (simp add: quoteRegex_not_special)
  then show "\<exists>b. string_body q4 b
           \<and> (body = b \<or> body = b @ [BSL] \<or> (\<exists>rest. body = b @ q4 # rest)
              \<or> (q4 \<noteq> BQ \<and> (\<exists>rest. body = b @ NL # rest)))"
    by (rule string_body_cases)
next
  assume h: "loop_steps n r0 = Inr r5 \<and> Reader_peek r5 = Some q5 \<and> quoteRegex q5
             \<and> Reader_STRING r5 = Inl e"
  then have "transpile_step r5 q5 = Inl e" by (simp add: transpile_step_quote)
  with h show "transpile r0 = Inl e" using transpile_abort [of n r0 r5 q5 e] by simp
next
  show "transpile (Transpiler fname ([DQ] @ ''abc'')) =
       Inl (SyntaxError (''Hss Error in '' @ fname @ '' on line 1'' @ [NL]
                         @ ''Unexpected end of file''))"
    by code_simp
qed

theorem string_newline_and_end_of_file_witness:
  "Reader_STRING (Transpiler ''a.hss'' ([SQ] @ ''a'' @ [BSL, SQ] @ ''b'' @ [NL] @ ''c'' @ [SQ])) =
     Inl (SyntaxError (''Hss Error in a.hss on line 1'' @ [NL] @ ''Unexpected multi-line string''))
   \<and> Reader_STRING (Transpiler ''a.hss'' ([BQ] @ ''a'' @ [NL] @ ''b'' @ [BQ])) =
     Inr \<lparr>filename = ''a.hss'', input = [], line = 2,
          ctx = \<lparr>kind = RootContext, content = [BQ] @ ''a'' @ [NL] @ ''b'' @ [BQ],
                 startingLine = 1, ignoreCount = 0\<rparr>,
          parents = []\<rparr>
   \<and> Reader_STRING (Transpiler ''a.hss'' ([DQ] @ ''a'' @ [BSL, DQ] @ ''bc'')) =
     Inl (SyntaxError (''Hss Error in a.hss on line 1'' @ [NL] @ ''Unexpected end of file''))
   \<and> transpile (Transpiler ''a.hss'' (''x '' @ [SQ] @ ''a'' @ [NL])) =
     Inl (SyntaxError (''Hss Error in a.hss on line 1'' @ [NL] @ ''Unexpected multi-line string''))"
proof -
  let ?r0 = "Transpiler ''a.hss'' (''x '' @ [SQ] @ ''a'' @ [NL])"
  let ?r5 = "?r0\<lparr>input := [SQ] @ ''a'' @ [NL], ctx := (ctx ?r0)\<lparr>content := ''x ''\<rparr>\<rparr>"
  have s: "loop_steps 2 ?r0 = Inr ?r5" by code_simp
  have e: "Reader_STRING ?r5 =
     Inl (SyntaxError (''Hss Error in a.hss on line 1'' @ [NL] @ ''Unexpected multi-line string''))"
    by code_simp
  have p: "Reader_peek ?r5 = Some SQ" by code_simp
  have q: "quoteRegex SQ" by (simp add: quoteRegex_def)
  note t = string_newline_and_end_of_file
    [where ?q1.0 = SQ and ?b1.0 = "''a'' @ [BSL, SQ] @ ''b''" and ?rest1.0 = "''c'' @ [SQ]"
       and ?r1.0 = "Transpiler ''a.hss'' ([SQ] @ ''a'' @ [BSL, SQ] @ ''b'' @ [NL] @ ''c'' @ [SQ])"
       and ?q2.0 = BQ and ?b2.0 = "''a'' @ [NL] @ ''b''" and ?rest2.0 = "[]"
       and ?r2.0 = "Transpiler ''a.hss'' ([BQ] @ ''a'' @ [NL] @ ''b'' @ [BQ])"
       and ?q3.0 = DQ and ?b3.0 = "''a'' @ [BSL, DQ] @ ''bc''"
       and ?r3.0 = "Transpiler ''a.hss'' ([DQ] @ ''a'' @ [BSL, DQ] @ ''bc'')"
       and n = 2 and ?r0.0 = ?r0 and ?r5.0 = ?r5 and ?q5.0 = SQ
       and e = "SyntaxError (''Hss Error in a.hss on line 1'' @ [NL] @ ''Unexpected multi-line string'')"]
  from t s e p q show ?thesis
    by (simp add: Transpiler_def quoteRegex_def add_def Context_add_def
      add_content_def beforeAdd_def new_Context_def Reader_error_def show_nat.simps
      digit_char_def numeral_2_eq_2)
qed

section \<open>Properties of the stylesheet context\<close>

text \<open>
  Claim C8. A STRING token given to a \<^verbatim>\<open>HssContext\<close>: when it starts with a single
  quote, the two outer quotes are taken off, every single quote inside becomes three
  backslashes and the quote, and the result goes into the content between two
  backslash-quote pairs; when it starts with a double quote or a backtick the token is
  appended as it is. A single quote gets inside such a token through an escape in the
  source text.
\<close>

theorem hss_string_token:
  "kind c = HssContext \<longrightarrow>
     Context_add c (SQ # body @ [SQ]) (Some STRING) =
       c\<lparr>content := content c @ [BSL, SQ]
            @ concat (map (\<lambda>x. if x = SQ then [BSL, BSL, BSL, SQ] else [x]) body) @ [BSL, SQ]\<rparr>
     \<and> ((q = DQ \<or> q = BQ) \<longrightarrow>
          Context_add c (q # t) (Some STRING) = c\<lparr>content := content c @ q # t\<rparr>)
     \<and> (ctx r = c \<and> list_all (ordinary SQ) b1 \<and> list_all (ordinary SQ) b2
          \<and> input r = SQ # b1 @ BSL # SQ # b2 @ SQ # rest \<longrightarrow>
          Reader_STRING r =
          Inr (r\<lparr>input := rest,
                 ctx := c\<lparr>content := content c @ [BSL, SQ] @ b1 @ [BSL, BSL, BSL, SQ] @ b2
                                     @ [BSL, SQ]\<rparr>\<rparr>))"
proof (intro impI conjI)
  assume k: "kind c = HssContext"
  show "Context_add c (SQ # body @ [SQ]) (Some STRING) =
       c\<lparr>content := content c @ [BSL, SQ]
            @ concat (map (\<lambda>x. if x = SQ then [BSL, BSL, BSL, SQ] else [x]) body) @ [BSL, SQ]\<rparr>"
    using k
    by (simp add: Context_add_def HssContext_STRING_def add_content_def beforeAdd_def
        replace_quotes_concat)
  {
    assume "q = DQ \<or> q = BQ"
    then show "Context_add c (q # t) (Some STRING) = c\<lparr>content := content c @ q # t\<rparr>"
      using k by (auto simp: Context_add_def HssContext_STRING_def add_content_def beforeAdd_def)
  }
  {
    assume h: "ctx r = c \<and> list_all (ordinary SQ) b1 \<and> list_all (ordinary SQ) b2
          \<and> input r = SQ # b1 @ BSL # SQ # b2 @ SQ # rest"
    then have n: "SQ \<notin> set b1" "SQ \<notin> set b2" by (simp_all add: ordinary_not_type)
    have "Reader_STRING r =
          Inr (add (r\<lparr>input := rest, line := (if SQ = NL then line r + 1 else line r)\<rparr>)
                 (SQ # b1 @ SQ # b2 @ [SQ]) (Some STRING))"
      using h by (intro Reader_STRING_escape) (simp_all add: quoteRegex_def)
    then show "Reader_STRING r =
          Inr (r\<lparr>input := rest,
                 ctx := c\<lparr>content := content c @ [BSL, SQ] @ b1 @ [BSL, BSL, BSL, SQ] @ b2
                                     @ [BSL, SQ]\<rparr>\<rparr>)"
      using h k n
      by (simp add: add_def Context_add_def HssContext_STRING_def add_content_def beforeAdd_def
          butlast_append replace_quotes_concat replace_quotes_id [unfolded replace_quotes_concat])
  }
qed

theorem hss_string_token_witness:
  "Context_add \<lparr>kind = HssContext, content = ''x'', startingLine = 1, ignoreCount = 0\<rparr>
     ([SQ] @ ''it'' @ [SQ] @ ''s'' @ [SQ]) (Some STRING) =
   \<lparr>kind = HssContext,
    content = ''x'' @ [BSL, SQ] @ ''it'' @ [BSL, BSL, BSL, SQ] @ ''s'' @ [BSL, SQ],
    startingLine = 1, ignoreCount = 0\<rparr>
   \<and> Context_add \<lparr>kind = HssContext, content = ''x'', startingLine = 1, ignoreCount = 0\<rparr>
     ([DQ] @ ''it'' @ [SQ] @ ''s'' @ [DQ]) (Some STRING) =
   \<lparr>kind = HssContext, content = ''x'' @ [DQ] @ ''it'' @ [SQ] @ ''s'' @ [DQ],
    startingLine = 1, ignoreCount = 0\<rparr>
   \<and> Reader_STRING
       \<lparr>filename = ''a.hss'', input = [SQ] @ ''it'' @ [BSL, SQ] @ ''s'' @ [SQ] @ ''>>'', line = 1,
        ctx = \<lparr>kind = HssContext, content = ''x'', startingLine = 1, ignoreCount = 0\<rparr>,
        parents = [new_Context RootContext 1]\<rparr> =
     Inr \<lparr>filename = ''a.hss'', input = ''>>'', line = 1,
          ctx = \<lparr>kind = HssContext,
                 content = ''x'' @ [BSL, SQ] @ ''it'' @ [BSL, BSL, BSL, SQ] @ ''s'' @ [BSL, SQ],
                 startingLine = 1, ignoreCount = 0\<rparr>,
          parents = [new_Context RootContext 1]\<rparr>"
  using hss_string_token
    [where c = "\<lparr>kind = HssContext, content = ''x'', startingLine = 1, ignoreCount = 0\<rparr>"
       and body = "''it'' @ [SQ] @ ''s''" and q = DQ and t = "''it'' @ [SQ] @ ''s'' @ [DQ]"
       and ?b1.0 = "''it''" and ?b2.0 = "''s''" and rest = "''>>''"
       and r = "\<lparr>filename = ''a.hss'', input = [SQ] @ ''it'' @ [BSL, SQ] @ ''s'' @ [SQ] @ ''>>'',
                 line = 1,
                 ctx = \<lparr>kind = HssContext, content = ''x'', startingLine = 1, ignoreCount = 0\<rparr>,
                 parents = [new_Context RootContext 1]\<rparr>"]
  by (simp add: ordinary_def)

section \<open>Properties of nested regions\<close>

text \<open>
  Claim C1, as the code has it. The claim says that a stylesheet region holding a host
  expression that holds another stylesheet region gives three nested calls, \<^verbatim>\<open>evaluate\<close>
  around \<^verbatim>\<open>jsExpr\<close> around \<^verbatim>\<open>evaluate\<close>. Only the root context wraps a closed child
  in an \<^verbatim>\<open>evaluate\<close> call; a \<^verbatim>\<open>JsContext\<close> adds the text of its closed child, a quoted
  string, as it is. For texts \<open>a\<close>, \<open>b\<close>, \<open>c\<close>, \<open>d\<close>, \<open>e\<close> of plain characters the input
  \<^verbatim>\<open><<a[b<<c>>d]e>>\<close> gives two nested calls, in the order of the input: an
  \<^verbatim>\<open>evaluate\<close> call around a \<^verbatim>\<open>jsExpr\<close> call, whose argument holds the inner region as the
  quoted string \<^verbatim>\<open>'c'\<close>.
\<close>

theorem nested_regions_two_calls:
  assumes "list_all plain a" and "list_all plain b" and "list_all plain c"
    and "list_all plain d" and "list_all plain e"
  shows "transpile (Transpiler fname
           (''<<'' @ a @ ''['' @ b @ ''<<'' @ c @ ''>>'' @ d @ '']'' @ e @ ''>>'')) =
         Inr (''sheath.css.evaluate('' @ [SQ] @ a @ [SQ] @ '' + sheath.css.jsExpr('' @ b
              @ [SQ] @ c @ [SQ] @ d @ '') + '' @ [SQ] @ e @ [SQ] @ '')'')"
proof -
  let ?st = "\<lambda>inp cx ps. \<lparr>filename = fname, input = inp, line = 1, ctx = cx, parents = ps\<rparr>"
  let ?cx = "\<lambda>k s. \<lparr>kind = k, content = s, startingLine = 1, ignoreCount = 0\<rparr>"
  let ?root = "?cx RootContext []"
  let ?inner = "[SQ] @ c @ [SQ]"
  let ?js = "b @ ?inner @ d"
  let ?hss = "a @ [SQ] @ '' + sheath.css.jsExpr('' @ ?js @ '') + '' @ [SQ] @ e"
  let ?out = "''sheath.css.evaluate('' @ [SQ] @ ?hss @ [SQ] @ '')''"
  have sq: "\<not> whitespaceRegex SQ" by (simp add: whitespaceRegex_def)
  have "transpile_loop (Transpiler fname
           (''<<'' @ a @ ''['' @ b @ ''<<'' @ c @ ''>>'' @ d @ '']'' @ e @ ''>>'')) =
        transpile_loop (?st (a @ ''['' @ b @ ''<<'' @ c @ ''>>'' @ d @ '']'' @ e @ ''>>'')
           (?cx HssContext []) [?root])"
    by (subst loop_open_hss [where xs = "a @ ''['' @ b @ ''<<'' @ c @ ''>>'' @ d @ '']'' @ e @ ''>>''"])
       (simp_all add: Transpiler_def new_Context_def)
  also have "\<dots> = transpile_loop (?st (''['' @ b @ ''<<'' @ c @ ''>>'' @ d @ '']'' @ e @ ''>>'')
           (?cx HssContext a) [?root])"
    by (subst plain_loop [OF assms(1), where rest = "''['' @ b @ ''<<'' @ c @ ''>>'' @ d @ '']'' @ e @ ''>>''"])
       simp_all
  also have "\<dots> = transpile_loop (?st (b @ ''<<'' @ c @ ''>>'' @ d @ '']'' @ e @ ''>>'')
           (?cx JsContext []) [?cx HssContext a, ?root])"
    by (subst loop_open_js [where xs = "b @ ''<<'' @ c @ ''>>'' @ d @ '']'' @ e @ ''>>''"])
       (simp_all add: new_Context_def)
  also have "\<dots> = transpile_loop (?st (''<<'' @ c @ ''>>'' @ d @ '']'' @ e @ ''>>'')
           (?cx JsContext b) [?cx HssContext a, ?root])"
    by (subst plain_loop [OF assms(2), where rest = "''<<'' @ c @ ''>>'' @ d @ '']'' @ e @ ''>>''"])
       simp_all
  also have "\<dots> = transpile_loop (?st (c @ ''>>'' @ d @ '']'' @ e @ ''>>'')
           (?cx HssContext []) [?cx JsContext b, ?cx HssContext a, ?root])"
    by (subst loop_open_hss [where xs = "c @ ''>>'' @ d @ '']'' @ e @ ''>>''"])
       (simp_all add: new_Context_def)
  also have "\<dots> = transpile_loop (?st (''>>'' @ d @ '']'' @ e @ ''>>'')
           (?cx HssContext c) [?cx JsContext b, ?cx HssContext a, ?root])"
    by (subst plain_loop [OF assms(3), where rest = "''>>'' @ d @ '']'' @ e @ ''>>''"])
       simp_all
  also have "\<dots> = transpile_loop (?st (d @ '']'' @ e @ ''>>'')
           (?cx JsContext (b @ ?inner)) [?cx HssContext a, ?root])"
    by (subst loop_close_hss [where xs = "d @ '']'' @ e @ ''>>''"
          and p = "?cx JsContext b" and ps = "[?cx HssContext a, ?root]"])
       (simp_all add: saveChildContent_def toString_def Context_add_def add_content_simp
          trim_plain [OF assms(3)])
  also have "\<dots> = transpile_loop (?st ('']'' @ e @ ''>>'')
           (?cx JsContext ?js) [?cx HssContext a, ?root])"
    by (subst plain_loop [OF assms(4), where rest = "'']'' @ e @ ''>>''"]) simp_all
  also have "\<dots> = transpile_loop (?st (e @ ''>>'')
           (?cx HssContext (a @ [SQ] @ '' + sheath.css.jsExpr('' @ ?js @ '') + '' @ [SQ])) [?root])"
    by (subst loop_close_js [where xs = "e @ ''>>''"
          and p = "?cx HssContext a" and ps = "[?root]"])
       (simp_all add: saveChildContent_def toString_def Context_add_def add_content_simp)
  also have "\<dots> = transpile_loop (?st ''>>'' (?cx HssContext ?hss) [?root])"
    by (subst plain_loop [OF assms(5), where rest = "''>>''"]) simp_all
  also have "\<dots> = transpile_loop (?st [] (?cx RootContext ?out) [])"
    using trim_between_plain [OF assms(1) assms(5) sq sq,
        of "'' + sheath.css.jsExpr('' @ ?js @ '') + ''"]
    by (subst loop_close_hss [where xs = "[]" and p = "?root" and ps = "[]"])
       (simp_all add: saveChildContent_def toString_def Context_add_def add_content_simp)
  also have "\<dots> = Inr (?st [] (?cx RootContext ?out) [])"
    by (simp add: transpile_loop_Nil)
  finally show ?thesis by (simp add: transpile_def toString_def)
qed

theorem nested_regions_two_calls_witness:
  "transpile (Transpiler ''a.hss'' ''<<a[b<<c>>d]e>>'') =
   Inr (''sheath.css.evaluate('' @ [SQ] @ ''a'' @ [SQ] @ '' + sheath.css.jsExpr(b'' @ [SQ]
        @ ''c'' @ [SQ] @ ''d) + '' @ [SQ] @ ''e'' @ [SQ] @ '')'')"
  using nested_regions_two_calls [of "''a''" "''b''" "''c''" "''d''" "''e''" "''a.hss''"]
  by (simp add: plain_def quoteRegex_def whitespaceRegex_def)

text \<open>
  The claim as stated fails on \<^verbatim>\<open><<[<<a>>]>>\<close>: the output has one \<^verbatim>\<open>evaluate\<close> call and
  one \<^verbatim>\<open>jsExpr\<close> call, and the inner region is the string \<^verbatim>\<open>'a'\<close>.
\<close>

theorem nested_regions_counterexample:
  "transpile (Transpiler ''a.hss'' ''<<[<<a>>]>>'') =
     Inr (''sheath.css.evaluate('' @ [SQ, SQ] @ '' + sheath.css.jsExpr('' @ [SQ] @ ''a'' @ [SQ]
          @ '') + '' @ [SQ, SQ] @ '')'')
   \<and> occurrences ''evaluate(''
       (''sheath.css.evaluate('' @ [SQ, SQ] @ '' + sheath.css.jsExpr('' @ [SQ] @ ''a'' @ [SQ]
        @ '') + '' @ [SQ, SQ] @ '')'') = 1
   \<and> occurrences ''jsExpr(''
       (''sheath.css.evaluate('' @ [SQ, SQ] @ '' + sheath.css.jsExpr('' @ [SQ] @ ''a'' @ [SQ]
        @ '') + '' @ [SQ, SQ] @ '')'') = 1"
  by code_simp

text \<open>
  Claim C6. When the input is used up and the current context is not the root,
  \<^verbatim>\<open>transpile\<close> raises the error whose message names the region (``Hss expression'' for a
  region opened by \<^verbatim>\<open><<\<close>), its closing delimiter and the line on which it began. That
  line is the line of the opening delimiter: a region opened after \<open>k\<close> newlines and
  followed by \<open>m\<close> more is reported on line \<open>1 + k + m\<close> as beginning on line \<open>1 + k\<close>, and
  the input \<^verbatim>\<open><<\<close> alone is reported as beginning on line 1.
\<close>

theorem unterminated_region:
  "(transpile_loop r = Inr r' \<and> kind (ctx r') \<noteq> RootContext \<longrightarrow>
      input r' = []
      \<and> transpile r =
          Inl (SyntaxError (''Hss Error in '' @ filename r' @ '' on line '' @ show_nat (line r')
               @ [NL] @ ''Unexpected end of file. It looks like you forgot the closing '' @ [DQ]
               @ endDelimiter (kind (ctx r')) @ [DQ] @ '' of the '' @ name_of (kind (ctx r'))
               @ '' beginning on line '' @ show_nat (startingLine (ctx r')) @ ''.'')))
   \<and> (childContextStart r = (True, r1) \<longrightarrow>
        line r1 = line r \<and> startingLine (ctx (newContext r1)) = line r)
   \<and> (list_all plain p \<longrightarrow>
        transpile (Transpiler fname (replicate k NL @ ''<<'' @ p @ replicate m NL)) =
        Inl (SyntaxError (''Hss Error in '' @ fname @ '' on line '' @ show_nat (1 + k + m)
             @ [NL] @ ''Unexpected end of file. It looks like you forgot the closing '' @ [DQ]
             @ ''>>'' @ [DQ] @ '' of the Hss expression beginning on line '' @ show_nat (1 + k)
             @ ''.'')))
   \<and> transpile (Transpiler fname ''<<'') =
       Inl (SyntaxError (''Hss Error in '' @ fname @ '' on line 1'' @ [NL]
            @ ''Unexpected end of file. It looks like you forgot the closing '' @ [DQ]
            @ ''>>'' @ [DQ] @ '' of the Hss expression beginning on line 1.''))
   \<and> transpile (Transpiler fname ''<<a[b'') =
       Inl (SyntaxError (''Hss Error in '' @ fname @ '' on line 1'' @ [NL]
            @ ''Unexpected end of file. It looks like you forgot the closing '' @ [DQ]
            @ '']'' @ [DQ] @ '' of the JavaScript expression beginning on line 1.''))"
proof (intro conjI impI)
  assume h: "transpile_loop r = Inr r' \<and> kind (ctx r') \<noteq> RootContext"
  then show "input r' = []" using transpile_loop_exhausts [of r r'] by simp
  from h show "transpile r =
          Inl (SyntaxError (''Hss Error in '' @ filename r' @ '' on line '' @ show_nat (line r')
               @ [NL] @ ''Unexpected end of file. It looks like you forgot the closing '' @ [DQ]
               @ endDelimiter (kind (ctx r')) @ [DQ] @ '' of the '' @ name_of (kind (ctx r'))
               @ '' beginning on line '' @ show_nat (startingLine (ctx r')) @ ''.''))"
    by (simp add: transpile_unterminated Reader_error_def unterminated_message_def)
next
  assume h: "childContextStart r = (True, r1)"
  then show "line r1 = line r" by (rule childContextStart_line)
  then show "startingLine (ctx (newContext r1)) = line r"
    by (simp add: newContext_def new_Context_def)
next
  assume "list_all plain p"
  from unterminated_hss_lines [OF this, of fname k m]
  show "transpile (Transpiler fname (replicate k NL @ ''<<'' @ p @ replicate m NL)) =
        Inl (SyntaxError (''Hss Error in '' @ fname @ '' on line '' @ show_nat (1 + k + m)
             @ [NL] @ ''Unexpected end of file. It looks like you forgot the closing '' @ [DQ]
             @ ''>>'' @ [DQ] @ '' of the Hss expression beginning on line '' @ show_nat (1 + k)
             @ ''.''))"
    by (simp add: unterminated_message_def endDelimiter_def name_of_def)
next
  show "transpile (Transpiler fname ''<<'') =
       Inl (SyntaxError (''Hss Error in '' @ fname @ '' on line 1'' @ [NL]
            @ ''Unexpected end of file. It looks like you forgot the closing '' @ [DQ]
            @ ''>>'' @ [DQ] @ '' of the Hss expression beginning on line 1.''))"
    by code_simp
next
  show "transpile (Transpiler fname ''<<a[b'') =
       Inl (SyntaxError (''Hss Error in '' @ fname @ '' on line 1'' @ [NL]
            @ ''Unexpected end of file. It looks like you forgot the closing '' @ [DQ]
            @ '']'' @ [DQ] @ '' of the JavaScript expression beginning on line 1.''))"
    by code_simp
qed

theorem unterminated_region_witness:
  "transpile (Transpiler ''a.hss'' ''<<x'') =
     Inl (SyntaxError (''Hss Error in a.hss on line 1'' @ [NL]
          @ ''Unexpected end of file. It looks like you forgot the closing '' @ [DQ]
          @ ''>>'' @ [DQ] @ '' of the Hss expression beginning on line 1.''))
   \<and> startingLine (ctx (newContext
        ((Transpiler ''a.hss'' ''<<x'')\<lparr>input := ''x''\<rparr>))) = 1
   \<and> transpile (Transpiler ''a.hss'' ([NL] @ ''<<color'' @ [NL, NL])) =
     Inl (SyntaxError (''Hss Error in a.hss on line 4'' @ [NL]
          @ ''Unexpected end of file. It looks like you forgot the closing '' @ [DQ]
          @ ''>>'' @ [DQ] @ '' of the Hss expression beginning on line 2.''))"
proof -
  let ?r = "Transpiler ''a.hss'' ''<<x''"
  let ?r' = "\<lparr>filename = ''a.hss'', input = [], line = 1,
              ctx = \<lparr>kind = HssContext, content = ''x'', startingLine = 1, ignoreCount = 0\<rparr>,
              parents = [new_Context RootContext 1]\<rparr>"
  have l: "transpile_loop ?r = Inr ?r'" by code_simp
  have c: "childContextStart ?r = (True, ?r\<lparr>input := ''x''\<rparr>)" by code_simp
  have n: "replicate 1 NL @ ''<<'' @ ''color'' @ replicate 2 NL = [NL] @ ''<<color'' @ [NL, NL]"
    by (simp add: numeral_2_eq_2)
  have s: "show_nat (1 + 1 + 2) = ''4''" "show_nat (1 + 1) = ''2''" "show_nat (Suc 0) = ''1''"
    by (simp_all add: show_nat.simps digit_char_def)
  note t = unterminated_region [where r = ?r and r' = ?r' and ?r1.0 = "?r\<lparr>input := ''x''\<rparr>"
      and p = "''color''" and fname = "''a.hss''" and k = 1 and m = 2]
  have p: "list_all plain ''color''" by (simp add: plain_def quoteRegex_def whitespaceRegex_def)
  from t l c p show ?thesis unfolding n s
    by (simp add: endDelimiter_def name_of_def s Transpiler_def)
qed

text \<open>
  Claim C5, at an input where the code departs from it. In \<^verbatim>\<open><<[a[0]]>>\<close> the host
  expression holds one balanced pair of brackets. The first \<^verbatim>\<open>]\<close> is added to the content
  and the count goes back to zero, as the claim says; but \<^verbatim>\<open>contextEnd\<close> then answers
  \<^verbatim>\<open>false\<close>, so the last branch of the loop of \<^verbatim>\<open>transpile\<close> runs as well and adds the
  next character, here the closing \<^verbatim>\<open>]\<close> of the region. The region is never closed and
  the call ends in the error for an open host expression. With one character between the
  two brackets the region closes at its own bracket.
\<close>

theorem bracket_pair_swallows_close:
  "transpile (Transpiler fname ''<<[a[0]]>>'') =
     Inl (SyntaxError (''Hss Error in '' @ fname @ '' on line 1'' @ [NL]
          @ ''Unexpected end of file. It looks like you forgot the closing '' @ [DQ]
          @ '']'' @ [DQ] @ '' of the JavaScript expression beginning on line 1.''))
   \<and> transpile (Transpiler fname ''<<[a[0] ]>>'') =
     Inr (''sheath.css.evaluate('' @ [SQ, SQ] @ '' + sheath.css.jsExpr(a[0] ) + '' @ [SQ, SQ]
          @ '')'')"
  by code_simp

section \<open>Properties of the host-expression context\<close>

text \<open>
  Claim C10, as the code has it. Take a pass through the loop of \<^verbatim>\<open>transpile\<close> that
  starts, in a \<^verbatim>\<open>JsContext\<close>, at the first character of a string or of a comment. The
  driver looks for a string and for a comment before it looks for the closing delimiter,
  so the whole token is scanned in that pass, and the brackets in it neither change
  \<open>ignoreCount\<close> nor close the region, whatever the count is: a string token is appended
  whole (without the backslashes of its escapes), and the count goes up only when what is
  added, with no type, is exactly \<^verbatim>\<open>[\<close>. The claim says that comment tokens are appended
  whole as well; a comment token is handed over whole, but the \<^verbatim>\<open>COMMENT\<close> handler of a
  child context is empty, and the comment is dropped. A host expression made of plain
  text and one such token closes at its own bracket. Not covered is a string or comment
  whose first character comes right after a closing bracket taken as text while the count
  was positive: that character is read by the last branch of the loop in the same pass.
\<close>

theorem brackets_in_tokens_ignored:
  "(kind (ctx r) = JsContext \<longrightarrow>
     (quoteRegex q \<and> string_body q b \<and> input r = q # b @ q # rest \<longrightarrow>
        transpile_step r q =
        Inr (r\<lparr>input := rest, line := line r + count_list b NL,
               ctx := (ctx r)\<lparr>content := content (ctx r) @ q # unescape b @ [q]\<rparr>\<rparr>))
     \<and> (occurrences ''*/'' (b1 @ ''*'') = 0 \<and> input r = ''/*'' @ b1 @ ''*/'' @ rest1 \<longrightarrow>
        transpile_step r (CHR ''/'') = Inr (r\<lparr>input := rest1, line := line r + count_list b1 NL\<rparr>))
     \<and> (NL \<notin> set b2 \<and> input r = ''//'' @ b2 @ NL # rest2 \<longrightarrow>
        transpile_step r (CHR ''/'') = Inr (r\<lparr>input := NL # rest2\<rparr>))
     \<and> (NL \<notin> set b2 \<and> input r = ''//'' @ b2 \<longrightarrow>
        transpile_step r (CHR ''/'') = Inr (r\<lparr>input := []\<rparr>))
     \<and> Context_add (ctx r) str (Some COMMENT) = ctx r
     \<and> (str \<noteq> ''['' \<longrightarrow>
        Context_add (ctx r) str (Some STRING) = (ctx r)\<lparr>content := content (ctx r) @ str\<rparr>)
     \<and> ignoreCount (Context_add (ctx r) str None) =
        (if str = ''['' then ignoreCount (ctx r) + 1 else ignoreCount (ctx r)))
   \<and> (list_all plain t1 \<and> list_all plain t2 \<longrightarrow>
     (quoteRegex q' \<and> string_body q' b' \<longrightarrow>
        transpile (Transpiler fname (''<<['' @ t1 @ (q' # b' @ [q']) @ t2 @ '']>>'')) =
        Inr (''sheath.css.evaluate('' @ [SQ, SQ] @ '' + sheath.css.jsExpr('' @ t1
             @ (q' # unescape b' @ [q']) @ t2 @ '') + '' @ [SQ, SQ] @ '')''))
     \<and> (occurrences ''*/'' (b1' @ ''*'') = 0 \<longrightarrow>
        transpile (Transpiler fname (''<<['' @ t1 @ (''/*'' @ b1' @ ''*/'') @ t2 @ '']>>'')) =
        Inr (''sheath.css.evaluate('' @ [SQ, SQ] @ '' + sheath.css.jsExpr('' @ t1 @ t2
             @ '') + '' @ [SQ, SQ] @ '')''))
     \<and> (NL \<notin> set b2' \<longrightarrow>
        transpile (Transpiler fname (''<<['' @ t1 @ (''//'' @ b2' @ [NL]) @ t2 @ '']>>'')) =
        Inr (''sheath.css.evaluate('' @ [SQ, SQ] @ '' + sheath.css.jsExpr('' @ t1 @ '' '' @ t2
             @ '') + '' @ [SQ, SQ] @ '')'')))"
proof (intro impI conjI)
  assume k: "kind (ctx r) = JsContext"
  show c: "Context_add (ctx r) str (Some COMMENT) = ctx r" for str
    using k by (simp add: child_add_comment)
  show s: "Context_add (ctx r) str (Some STRING) = (ctx r)\<lparr>content := content (ctx r) @ str\<rparr>"
    if "str \<noteq> ''[''" for str
    using k that by (simp add: js_add_string)
  show "ignoreCount (Context_add (ctx r) str None) =
        (if str = ''['' then ignoreCount (ctx r) + 1 else ignoreCount (ctx r))"
    using k by (simp add: Context_add_def add_content_def beforeAdd_def Let_def)
  {
    assume h: "quoteRegex q \<and> string_body q b \<and> input r = q # b @ q # rest"
    have "q # unescape b @ [q] \<noteq> ''[''" by simp
    from s [OF this] h step_string_body [of q b r rest]
    show "transpile_step r q =
        Inr (r\<lparr>input := rest, line := line r + count_list b NL,
               ctx := (ctx r)\<lparr>content := content (ctx r) @ q # unescape b @ [q]\<rparr>\<rparr>)"
      by simp
  }
  {
    assume h: "occurrences ''*/'' (b1 @ ''*'') = 0 \<and> input r = ''/*'' @ b1 @ ''*/'' @ rest1"
    have "r\<lparr>input := rest1, line := line r + count_list b1 NL, ctx := ctx r\<rparr> =
          r\<lparr>input := rest1, line := line r + count_list b1 NL\<rparr>"
      by (cases r) simp
    with h step_block_comment_general [of b1 r rest1] c
    show "transpile_step r (CHR ''/'') = Inr (r\<lparr>input := rest1, line := line r + count_list b1 NL\<rparr>)"
      by simp
  }
  {
    assume h: "NL \<notin> set b2 \<and> input r = ''//'' @ b2 @ NL # rest2"
    have "r\<lparr>input := NL # rest2, ctx := ctx r\<rparr> = r\<lparr>input := NL # rest2\<rparr>"
      by (cases r) simp
    with h step_line_comment [of b2 r rest2] c
    show "transpile_step r (CHR ''/'') = Inr (r\<lparr>input := NL # rest2\<rparr>)"
      by simp
  }
  {
    assume h: "NL \<notin> set b2 \<and> input r = ''//'' @ b2"
    have "r\<lparr>input := [], ctx := ctx r\<rparr> = r\<lparr>input := []\<rparr>"
      by (cases r) simp
    with h step_line_comment_eof [of b2 r] c
    show "transpile_step r (CHR ''/'') = Inr (r\<lparr>input := []\<rparr>)"
      by simp
  }
next
  assume p: "list_all plain t1 \<and> list_all plain t2"
  {
    assume "quoteRegex q' \<and> string_body q' b'"
    with p show "transpile (Transpiler fname (''<<['' @ t1 @ (q' # b' @ [q']) @ t2 @ '']>>'')) =
        Inr (''sheath.css.evaluate('' @ [SQ, SQ] @ '' + sheath.css.jsExpr('' @ t1
             @ (q' # unescape b' @ [q']) @ t2 @ '') + '' @ [SQ, SQ] @ '')'')"
      using host_expression_string_run [of t1 t2 q' b' fname] by blast
  }
  {
    assume "occurrences ''*/'' (b1' @ ''*'') = 0"
    with p show "transpile (Transpiler fname (''<<['' @ t1 @ (''/*'' @ b1' @ ''*/'') @ t2 @ '']>>'')) =
        Inr (''sheath.css.evaluate('' @ [SQ, SQ] @ '' + sheath.css.jsExpr('' @ t1 @ t2
             @ '') + '' @ [SQ, SQ] @ '')'')"
      using host_expression_block_comment_run [of t1 t2 b1' fname] by simp
  }
  {
    assume "NL \<notin> set b2'"
    with p show "transpile (Transpiler fname (''<<['' @ t1 @ (''//'' @ b2' @ [NL]) @ t2 @ '']>>'')) =
        Inr (''sheath.css.evaluate('' @ [SQ, SQ] @ '' + sheath.css.jsExpr('' @ t1 @ '' '' @ t2
             @ '') + '' @ [SQ, SQ] @ '')'')"
      using host_expression_line_comment_run [of t1 t2 b2' fname] by blast
  }
qed

theorem brackets_in_tokens_ignored_witness:
  "transpile_step
     \<lparr>filename = ''a.hss'', input = [DQ] @ '']'' @ [BSL, DQ] @ ''['' @ [DQ] @ '']>>'', line = 1,
      ctx = \<lparr>kind = JsContext, content = ''a['', startingLine = 1, ignoreCount = 1\<rparr>,
      parents = [new_Context HssContext 1, new_Context RootContext 1]\<rparr> DQ =
   Inr \<lparr>filename = ''a.hss'', input = '']>>'', line = 1,
        ctx = \<lparr>kind = JsContext, content = ''a['' @ [DQ] @ '']'' @ [DQ] @ ''['' @ [DQ],
               startingLine = 1, ignoreCount = 1\<rparr>,
        parents = [new_Context HssContext 1, new_Context RootContext 1]\<rparr>
   \<and> transpile_step
     \<lparr>filename = ''a.hss'', input = ''/*]*[*/]>>'', line = 1,
      ctx = \<lparr>kind = JsContext, content = ''a['', startingLine = 1, ignoreCount = 1\<rparr>,
      parents = [new_Context HssContext 1, new_Context RootContext 1]\<rparr> (CHR ''/'') =
   Inr \<lparr>filename = ''a.hss'', input = '']>>'', line = 1,
        ctx = \<lparr>kind = JsContext, content = ''a['', startingLine = 1, ignoreCount = 1\<rparr>,
        parents = [new_Context HssContext 1, new_Context RootContext 1]\<rparr>
   \<and> transpile_step
     \<lparr>filename = ''a.hss'', input = ''//]['' @ [NL] @ '']>>'', line = 1,
      ctx = \<lparr>kind = JsContext, content = ''a['', startingLine = 1, ignoreCount = 1\<rparr>,
      parents = [new_Context HssContext 1, new_Context RootContext 1]\<rparr> (CHR ''/'') =
   Inr \<lparr>filename = ''a.hss'', input = [NL] @ '']>>'', line = 1,
        ctx = \<lparr>kind = JsContext, content = ''a['', startingLine = 1, ignoreCount = 1\<rparr>,
        parents = [new_Context HssContext 1, new_Context RootContext 1]\<rparr>
   \<and> transpile (Transpiler ''a.hss''
        (''<<[a+'' @ [DQ] @ '']'' @ [BSL, DQ] @ ''['' @ [DQ] @ ''+b]>>'')) =
     Inr (''sheath.css.evaluate('' @ [SQ, SQ] @ '' + sheath.css.jsExpr(a+'' @ [DQ] @ '']''
          @ [DQ] @ ''['' @ [DQ] @ ''+b) + '' @ [SQ, SQ] @ '')'')
   \<and> transpile (Transpiler ''a.hss'' ''<<[a+/*]*[*/+b]>>'') =
     Inr (''sheath.css.evaluate('' @ [SQ, SQ] @ '' + sheath.css.jsExpr(a++b) + '' @ [SQ, SQ]
          @ '')'')
   \<and> transpile (Transpiler ''a.hss'' (''<<[a+//]['' @ [NL] @ ''+b]>>'')) =
     Inr (''sheath.css.evaluate('' @ [SQ, SQ] @ '' + sheath.css.jsExpr(a+ +b) + '' @ [SQ, SQ]
          @ '')'')"
proof -
  let ?c = "\<lparr>kind = JsContext, content = ''a['', startingLine = 1, ignoreCount = 1\<rparr>"
  let ?ps = "[new_Context HssContext 1, new_Context RootContext 1]"
  let ?st = "\<lambda>inp. \<lparr>filename = ''a.hss'', input = inp, line = 1, ctx = ?c, parents = ?ps\<rparr>"
  have p: "list_all plain ''a+'' \<and> list_all plain ''+b''"
    by (simp add: plain_def quoteRegex_def whitespaceRegex_def)
  show ?thesis
    using brackets_in_tokens_ignored
        [where r = "?st ([DQ] @ '']'' @ [BSL, DQ] @ ''['' @ [DQ] @ '']>>'')"
          and q = DQ and b = "'']'' @ [BSL, DQ] @ ''[''" and rest = "'']>>''"
          and ?t1.0 = "''a+''" and ?t2.0 = "''+b''" and q' = DQ
          and b' = "'']'' @ [BSL, DQ] @ ''[''" and ?b1' = "'']*[''" and ?b2' = "''][''"
          and fname = "''a.hss''"]
      brackets_in_tokens_ignored [where r = "?st ''/*]*[*/]>>''"
        and ?b1.0 = "'']*[''" and ?rest1.0 = "'']>>''"]
      brackets_in_tokens_ignored [where r = "?st (''//]['' @ [NL] @ '']>>'')"
        and ?b2.0 = "''][''" and ?rest2.0 = "'']>>''"]
      p
    by (simp add: quoteRegex_def)
qed

text \<open>
  The claim as stated fails on the comment \<^verbatim>\<open>/*]*/\<close>: given to a \<^verbatim>\<open>JsContext\<close>, it is
  not appended to the content, and \<^verbatim>\<open><<[a/*]*/]>>\<close> is transpiled to a \<^verbatim>\<open>jsExpr\<close> call
  on \<^verbatim>\<open>a\<close> alone. It fails as well on \<^verbatim>\<open><<[a[0]/*]*/]>>\<close>, where the comment starts
  right after the bracket that closes \<^verbatim>\<open>a[0]\<close>: its slash is taken as text, and the
  bracket inside it closes the region.
\<close>

theorem comment_token_counterexample:
  "content (Context_add (new_Context JsContext 1) ''/*]*/'' (Some COMMENT)) \<noteq>
     content (new_Context JsContext 1) @ ''/*]*/''
   \<and> transpile (Transpiler ''a.hss'' ''<<[a/*]*/]>>'') =
     Inr (''sheath.css.evaluate('' @ [SQ, SQ] @ '' + sheath.css.jsExpr(a) + '' @ [SQ, SQ] @ '')'')
   \<and> transpile (Transpiler ''a.hss'' ''<<[a[0]/*]*/]>>'') =
     Inr (''sheath.css.evaluate('' @ [SQ, SQ] @ '' + sheath.css.jsExpr(a[0]/*) + '' @ [SQ]
          @ ''*/]'' @ [SQ] @ '')'')"
  by code_simp

section \<open>Properties of the root context\<close>

text \<open>
  Claim C3, as the code has it. The claim says that an input without \<^verbatim>\<open><<\<close> is returned
  as it is. The root context does append every token unchanged, comments included, but the
  scanner drops the backslash of every escape in a string, and a string that is not closed
  (or, with a single or double quote, goes over a line) is an error. So: an input with no
  \<^verbatim>\<open><<\<close> in which every string is closed and has no backslash in it, and every block
  comment is closed, is returned as it is, with its comments and its strings. Backslashes
  outside strings are kept.
\<close>

theorem root_text_unchanged:
  "occurrences ''<<'' inp = 0 \<and> lexically_closed inp \<longrightarrow>
     transpile (Transpiler fname inp) = Inr inp"
proof
  assume h: "occurrences ''<<'' inp = 0 \<and> lexically_closed inp"
  let ?r = "Transpiler fname inp"
  have "kind (ctx ?r) = RootContext" "input ?r = inp" "content (ctx ?r) = []"
    by (simp_all add: Transpiler_def new_Context_def)
  with root_lexically_closed [of ?r inp] h
  obtain r' where "transpile_loop ?r = Inr r'" "kind (ctx r') = RootContext"
    "content (ctx r') = inp" by auto
  then show "transpile ?r = Inr inp" by (simp add: transpile_def toString_def)
qed

theorem root_text_unchanged_witness:
  "occurrences ''<<''
     (''x = '' @ [DQ] @ ''a/*'' @ [DQ] @ ''; y = /'' @ [BSL] @ ''d/ /* c < */ // e'') = 0
   \<and> lexically_closed
     (''x = '' @ [DQ] @ ''a/*'' @ [DQ] @ ''; y = /'' @ [BSL] @ ''d/ /* c < */ // e'')
   \<and> transpile (Transpiler ''a.hss''
       (''x = '' @ [DQ] @ ''a/*'' @ [DQ] @ ''; y = /'' @ [BSL] @ ''d/ /* c < */ // e'')) =
     Inr (''x = '' @ [DQ] @ ''a/*'' @ [DQ] @ ''; y = /'' @ [BSL] @ ''d/ /* c < */ // e'')"
proof -
  have h: "occurrences ''<<''
     (''x = '' @ [DQ] @ ''a/*'' @ [DQ] @ ''; y = /'' @ [BSL] @ ''d/ /* c < */ // e'') = 0
   \<and> lexically_closed
     (''x = '' @ [DQ] @ ''a/*'' @ [DQ] @ ''; y = /'' @ [BSL] @ ''d/ /* c < */ // e'')"
    by code_simp
  with root_text_unchanged
    [of "''x = '' @ [DQ] @ ''a/*'' @ [DQ] @ ''; y = /'' @ [BSL] @ ''d/ /* c < */ // e''" "''a.hss''"]
  show ?thesis by blast
qed

text \<open>
  The claim as stated fails on the string \<^verbatim>\<open>'it\'s'\<close>, an input with no \<^verbatim>\<open><<\<close>: the
  output is \<^verbatim>\<open>'it's'\<close>. It fails as well on \<^verbatim>\<open>"abc\<close>, which raises the end-of-file
  error and returns nothing.
\<close>

theorem root_text_counterexample:
  "occurrences ''<<'' ([SQ] @ ''it'' @ [BSL, SQ] @ ''s'' @ [SQ]) = 0
   \<and> transpile (Transpiler ''a.hss'' ([SQ] @ ''it'' @ [BSL, SQ] @ ''s'' @ [SQ])) =
       Inr ([SQ] @ ''it'' @ [SQ] @ ''s'' @ [SQ])
   \<and> [SQ] @ ''it'' @ [SQ] @ ''s'' @ [SQ] \<noteq> [SQ] @ ''it'' @ [BSL, SQ] @ ''s'' @ [SQ]
   \<and> occurrences ''<<'' ([DQ] @ ''abc'') = 0
   \<and> transpile (Transpiler ''a.hss'' ([DQ] @ ''abc'')) =
       Inl (SyntaxError (''Hss Error in a.hss on line 1'' @ [NL] @ ''Unexpected end of file''))"
  by code_simp

text \<open>
  A block comment that the input leaves open is outside the amended statement: the two
  \<^verbatim>\<open>next()\<close> calls after the loop of \<^verbatim>\<open>blockComment\<close> both return \<^verbatim>\<open>undefined\<close>, and
  their sum is appended.
\<close>

lemma unclosed_block_comment:
  "transpile (Transpiler fname ''a /* c'') = Inr ''a /* cNaN''"
  by code_simp

section \<open>Concrete scenarios\<close>

text \<open>
  Claim C4. The input \<^verbatim>\<open><< 'a' + [x+1] >>\<close> is transpiled to
  \<^verbatim>\<open>sheath.css.evaluate('\'a\' + ' + sheath.css.jsExpr(x+1) + '')\<close>: the content of
  the stylesheet region is trimmed and put between single quotes, the single-quoted string
  is stripped and wrapped again in escaped quotes, the host expression becomes a
  \<^verbatim>\<open>jsExpr\<close> call, and the root wraps the whole in an \<^verbatim>\<open>evaluate\<close> call. The runtime
  module the generated code calls is \<^verbatim>\<open>sheath.css\<close>.
\<close>

theorem scenario_string_and_host_expression:
  "transpile (Transpiler fname (''<< '' @ [SQ] @ ''a'' @ [SQ] @ '' + [x+1] >>'')) =
   Inr (''sheath.css.evaluate('' @ [SQ, BSL, SQ] @ ''a'' @ [BSL, SQ] @ '' + '' @ [SQ]
        @ '' + sheath.css.jsExpr(x+1) + '' @ [SQ, SQ] @ '')'')"
  by code_simp

end
